theory Spec2Isabelle
  imports Main "HOL-Library.Char_ord" "HOL-Library.List_Lexorder" "HOL-Library.AList"
begin

section \<open>The snippet manager of the micro editor\<close>

text \<open>
  The program is \<^verbatim>\<open>tools/snippetmanager/snippetmanager.go\<close>: a store of named text
  snippets, kept in a Go \<^verbatim>\<open>map[string]string\<close> and persisted as one JSON object.

  A Go string is a sequence of bytes, and so is a \<^typ>\<open>string\<close> here (a \<^typ>\<open>char\<close> is
  one byte); Go compares strings bytewise and lexicographically, which is the order
  \<^theory_text>\<open>Char_ord\<close> and \<^theory_text>\<open>List_Lexorder\<close> give to \<^typ>\<open>string\<close>.
\<close>

subsection \<open>Data\<close>

text \<open>
  A table is the content of an allocated Go map: its entries, in the order in which a
  \<^verbatim>\<open>range\<close> loop happens to visit them. Go fixes no such order, so nothing may depend on
  it; what the map type guarantees is that no key occurs twice (\<open>wf_table\<close>). Two tables
  are the same mapping when \<^const>\<open>map_of\<close> agrees on them.
\<close>

type_synonym table = "(string \<times> string) list"

definition wf_table :: "table \<Rightarrow> bool" where
  "wf_table t = distinct (map fst t)"

text \<open>
  The field \<^verbatim>\<open>Snippets\<close> is \<open>None\<close> for the nil map (which reads as an empty map, and
  panics on assignment) and \<open>Some t\<close> for an allocated map holding the table \<open>t\<close>.
\<close>

record SnippetManager =
  Filepath :: string
  Snippets :: "table option"

datatype error =
    NotExist              \<comment> \<open>reading a file that does not exist\<close>
  | IOError               \<comment> \<open>any other failure of reading or writing a file\<close>
  | ParseError            \<comment> \<open>\<^verbatim>\<open>json.Unmarshal\<close> rejects the file content\<close>
  | ScanError             \<comment> \<open>the \<^verbatim>\<open>bufio.Scanner\<close> on standard input failed\<close>
  | NotFoundError string  \<comment> \<open>\<^verbatim>\<open>Delete\<close> of a name that is not in the table\<close>
  | NilMapPanic           \<comment> \<open>the runtime panic of an assignment to an entry of a nil map\<close>

subsection \<open>The file system\<close>

text \<open>
  What the program sees of a path through \<^verbatim>\<open>ioutil.ReadFile\<close> and \<^verbatim>\<open>ioutil.WriteFile\<close>.
  Directories are not modelled: the \<^verbatim>\<open>MkdirAll\<close> of \<^verbatim>\<open>NewSnippetManager\<close> only prepares
  the directory of the file and its result is discarded by the source. A node says which
  error the two calls meet. Reading \<open>Missing\<close> and \<open>Uncreatable\<close> fails with the error
  that \<^verbatim>\<open>os.IsNotExist\<close> recognises (\<^verbatim>\<open>ENOENT\<close>: the file, or a directory on the way to
  it, is not there); \<open>Uncreatable\<close> is such a path where the file cannot be created
  either (the directory is missing and could not be made, or may not be written to).
  Every other failure of reading is \<open>Unreadable\<close>: no permission to read, a directory
  at the path, or a path that runs through something that is not a directory
  (\<^verbatim>\<open>ENOTDIR\<close>), which \<^verbatim>\<open>os.IsNotExist\<close> does not take for a missing file.
\<close>

datatype node =
    Missing          \<comment> \<open>no such file (\<^verbatim>\<open>ENOENT\<close>); writing creates it\<close>
  | Uncreatable      \<comment> \<open>no such file (\<^verbatim>\<open>ENOENT\<close>), and writing fails\<close>
  | Data string      \<comment> \<open>a readable and writable file with this content\<close>
  | ReadOnly string  \<comment> \<open>a readable file with this content; writing fails\<close>
  | Unreadable       \<comment> \<open>reading fails with an error other than \<^verbatim>\<open>ENOENT\<close>; writing fails\<close>

type_synonym filesystem = "string \<Rightarrow> node"

definition ReadFile :: "filesystem \<Rightarrow> string \<Rightarrow> error + string" where
  "ReadFile fs path =
     (case fs path of
        Missing \<Rightarrow> Inl NotExist
      | Uncreatable \<Rightarrow> Inl NotExist
      | Data d \<Rightarrow> Inr d
      | ReadOnly d \<Rightarrow> Inr d
      | Unreadable \<Rightarrow> Inl IOError)"

definition IsNotExist :: "error \<Rightarrow> bool" where
  "IsNotExist e = (e = NotExist)"

definition WriteFile :: "filesystem \<Rightarrow> string \<Rightarrow> string \<Rightarrow> error option \<times> filesystem" where
  "WriteFile fs path d =
     (case fs path of
        Missing \<Rightarrow> (None, fs(path := Data d))
      | Data _ \<Rightarrow> (None, fs(path := Data d))
      | Uncreatable \<Rightarrow> (Some IOError, fs)
      | ReadOnly _ \<Rightarrow> (Some IOError, fs)
      | Unreadable \<Rightarrow> (Some IOError, fs))"

subsection \<open>UTF-8, as package \<^verbatim>\<open>unicode/utf8\<close> reads and writes it\<close>

text \<open>
  Runes are natural numbers. \<open>DecodeRuneInString\<close> returns the first rune of a string and
  the number of bytes it takes, and \<open>(RuneError, 1)\<close> where the string does not start
  with a well-formed encoding. The masks and shifts of the library are written as
  \<open>mod\<close>, \<open>div\<close> and multiplication by powers of two.
\<close>

definition RuneError :: nat where
  "RuneError = 0xFFFD"

definition first_size :: "nat \<Rightarrow> nat" where
  "first_size s0 = (if s0 < 0xE0 then 2 else if s0 < 0xF0 then 3 else 4)"

definition accept_lo :: "nat \<Rightarrow> nat" where
  "accept_lo s0 = (if s0 = 0xE0 then 0xA0 else if s0 = 0xF0 then 0x90 else 0x80)"

definition accept_hi :: "nat \<Rightarrow> nat" where
  "accept_hi s0 = (if s0 = 0xED then 0x9F else if s0 = 0xF4 then 0x8F else 0xBF)"

definition DecodeRuneInString :: "string \<Rightarrow> nat \<times> nat" where
  "DecodeRuneInString s =
     (case s of
        [] \<Rightarrow> (RuneError, 0)
      | c0 # t1 \<Rightarrow>
          let s0 = of_char c0 in
          if s0 < 0x80 then (s0, 1)
          else if s0 < 0xC2 \<or> 0xF4 < s0 then (RuneError, 1)
          else if length s < first_size s0 then (RuneError, 1)
          else
            (case t1 of
               [] \<Rightarrow> (RuneError, 1)
             | c1 # t2 \<Rightarrow>
                 let s1 = of_char c1 in
                 if s1 < accept_lo s0 \<or> accept_hi s0 < s1 then (RuneError, 1)
                 else if first_size s0 \<le> 2 then ((s0 mod 32) * 64 + s1 mod 64, 2)
                 else
                   (case t2 of
                      [] \<Rightarrow> (RuneError, 1)
                    | c2 # t3 \<Rightarrow>
                        let s2 = of_char c2 in
                        if s2 < 0x80 \<or> 0xBF < s2 then (RuneError, 1)
                        else if first_size s0 \<le> 3
                        then ((s0 mod 16) * 4096 + (s1 mod 64) * 64 + s2 mod 64, 3)
                        else
                          (case t3 of
                             [] \<Rightarrow> (RuneError, 1)
                           | c3 # _ \<Rightarrow>
                               let s3 = of_char c3 in
                               if s3 < 0x80 \<or> 0xBF < s3 then (RuneError, 1)
                               else ((s0 mod 8) * 262144 + (s1 mod 64) * 4096
                                       + (s2 mod 64) * 64 + s3 mod 64, 4)))))"

definition EncodeRune :: "nat \<Rightarrow> string" where
  "EncodeRune r =
     (if r \<le> 0x7F then [char_of r]
      else if r \<le> 0x7FF then [char_of (0xC0 + r div 64), char_of (0x80 + r mod 64)]
      else if 0x10FFFF < r \<or> (0xD800 \<le> r \<and> r \<le> 0xDFFF)
      then [CHR 0xEF, CHR 0xBF, CHR 0xBD]
      else if r \<le> 0xFFFF
      then [char_of (0xE0 + r div 4096), char_of (0x80 + (r div 64) mod 64),
            char_of (0x80 + r mod 64)]
      else [char_of (0xF0 + r div 262144), char_of (0x80 + (r div 4096) mod 64),
            char_of (0x80 + (r div 64) mod 64), char_of (0x80 + r mod 64)])"

text \<open>\<^verbatim>\<open>utf8.ValidString\<close>: no position decodes to \<open>(RuneError, 1)\<close>.\<close>

function ValidString :: "string \<Rightarrow> bool" where
  "ValidString [] = True"
| "ValidString (c # s) =
     (case DecodeRuneInString (c # s) of
        (r, n) \<Rightarrow> \<not> (r = RuneError \<and> n = 1) \<and> ValidString (drop (n - 1) s))"
  by pat_completeness auto
termination
  by (relation "measure length") auto

subsection \<open>JSON, as package \<^verbatim>\<open>encoding/json\<close> writes it\<close>

text \<open>
  \<^verbatim>\<open>json.MarshalIndent(sm.Snippets, "", "  ")\<close> on a \<^verbatim>\<open>map[string]string\<close>. The encoder
  writes a string between double quotes (\<open>appendString\<close>, with HTML escaping on, as
  \<^verbatim>\<open>Marshal\<close> has it): the bytes from space to DEL stand for themselves, except the
  double quote and the backslash, which get a backslash, and \<^verbatim>\<open><\<close>, \<^verbatim>\<open>>\<close> and \<^verbatim>\<open>&\<close>,
  which are written \<^verbatim>\<open>\u00XX\<close> as the other control bytes are; backspace, form feed,
  newline, carriage return and tab have their short escapes (Go 1.22 and later; earlier
  versions write backspace and form feed as \<^verbatim>\<open>\u0008\<close> and \<^verbatim>\<open>\u000c\<close>, which read back
  the same). A byte that does not start a well-formed UTF-8 encoding is written
  as the escape of U+FFFD; U+2028 and U+2029 are escaped; every other rune is copied.
  The documentation of \<^verbatim>\<open>Marshal\<close> says it so: ``String values encode as JSON strings
  coerced to valid UTF-8, replacing invalid bytes with the Unicode replacement rune.''
\<close>

text \<open>The digits of the encoder, \<^verbatim>\<open>hex[b>>4]\<close> and \<^verbatim>\<open>hex[b&0xF]\<close>: the index is below 16.\<close>

definition hex :: "nat \<Rightarrow> char" where
  "hex n = ''0123456789abcdef'' ! n"

definition htmlSafeSet :: "nat \<Rightarrow> bool" where
  "htmlSafeSet b = (0x20 \<le> b \<and> b < 0x80 \<and> b \<noteq> 0x22 \<and> b \<noteq> 0x26 \<and> b \<noteq> 0x3C
                      \<and> b \<noteq> 0x3E \<and> b \<noteq> 0x5C)"

definition escape_byte :: "char \<Rightarrow> string" where
  "escape_byte c =
     (if c = CHR 0x5C \<or> c = CHR 0x22 then [CHR 0x5C, c]
      else if c = CHR 0x08 then [CHR 0x5C, CHR ''b'']
      else if c = CHR 0x0C then [CHR 0x5C, CHR ''f'']
      else if c = CHR 0x0A then [CHR 0x5C, CHR ''n'']
      else if c = CHR 0x0D then [CHR 0x5C, CHR ''r'']
      else if c = CHR 0x09 then [CHR 0x5C, CHR ''t'']
      else [CHR 0x5C, CHR ''u'', CHR ''0'', CHR ''0'',
            hex (of_char c div 16), hex (of_char c mod 16)])"

function string_body :: "string \<Rightarrow> string" where
  "string_body [] = []"
| "string_body (c # s) =
     (if (of_char c :: nat) < 0x80
      then (if htmlSafeSet (of_char c) then [c] else escape_byte c) @ string_body s
      else
        (case DecodeRuneInString (c # s) of
           (r, n) \<Rightarrow>
             if r = RuneError \<and> n = 1 then CHR 0x5C # ''ufffd'' @ string_body s
             else if r = 0x2028 \<or> r = 0x2029
             then CHR 0x5C # ''u202'' @ [hex (r mod 16)] @ string_body (drop (n - 1) s)
             else c # take (n - 1) s @ string_body (drop (n - 1) s)))"
  by pat_completeness auto
termination
  by (relation "measure length") auto

definition appendString :: "string \<Rightarrow> string" where
  "appendString s = CHR 0x22 # string_body s @ [CHR 0x22]"

text \<open>
  The entries of a map are written in the order of their keys (\<^verbatim>\<open>Marshal\<close> sorts them
  with \<^verbatim>\<open>strings.Compare\<close>), one to a line, indented by two spaces, with a colon and a
  space between key and value. An empty map is \<^verbatim>\<open>{}\<close> and the nil map is \<^verbatim>\<open>null\<close>. On
  this type \<^verbatim>\<open>MarshalIndent\<close> has no error to return, so the model returns the bytes
  alone.
\<close>

definition object_member :: "string \<times> string \<Rightarrow> string" where
  "object_member e = ''  '' @ appendString (fst e) @ '': '' @ appendString (snd e)"

fun object_members :: "table \<Rightarrow> string" where
  "object_members [] = []"
| "object_members [e] = object_member e @ [CHR 0x0A]"
| "object_members (e # e' # es) =
     object_member e @ [CHR '','', CHR 0x0A] @ object_members (e' # es)"

definition MarshalIndent :: "table option \<Rightarrow> string" where
  "MarshalIndent m =
     (case m of
        None \<Rightarrow> ''null''
      | Some t \<Rightarrow>
          if t = [] then ''{}''
          else CHR ''{'' # CHR 0x0A # object_members (sort_key fst t) @ ''}'')"

subsection \<open>JSON, as \<^verbatim>\<open>json.Unmarshal\<close> reads it into a \<^verbatim>\<open>map[string]string\<close>\<close>

text \<open>
  \<^verbatim>\<open>Unmarshal\<close> first checks the whole text against the JSON grammar and then stores what
  it finds. Into a map of strings it stores without error exactly two kinds of text
  (white space around the tokens aside): the literal \<^verbatim>\<open>null\<close>, which sets the map to nil,
  and an object whose values are strings or \<^verbatim>\<open>null\<close> (a \<^verbatim>\<open>null\<close> value leaves the fresh
  element at the empty string). In the words of the documentation: ``The JSON null value
  unmarshals into an interface, map, pointer, or slice by setting that Go value to nil'',
  and ``unmarshaling a JSON null into any other Go type has no effect on the value and
  produces no error''. Every other text is an error, of syntax (\<^verbatim>\<open>*json.SyntaxError\<close>) or
  of type (\<^verbatim>\<open>*json.UnmarshalTypeError\<close>: a number, a boolean, an array or an object where
  a string is expected, or anything but an object at the top). The model reports both as
  \<open>ParseError\<close>, so it need not read further into a value that is no string, and it does
  not follow the library into what a type error leaves in the map.
\<close>

definition isSpace :: "char \<Rightarrow> bool" where
  "isSpace c = (c = CHR '' '' \<or> c = CHR 0x09 \<or> c = CHR 0x0D \<or> c = CHR 0x0A)"

definition skip_space :: "string \<Rightarrow> string" where
  "skip_space s = dropWhile isSpace s"

definition hex_value :: "char \<Rightarrow> nat option" where
  "hex_value c =
     (let b = of_char c in
      if 0x30 \<le> b \<and> b \<le> 0x39 then Some (b - 0x30)
      else if 0x61 \<le> b \<and> b \<le> 0x66 then Some (b - 0x61 + 10)
      else if 0x41 \<le> b \<and> b \<le> 0x46 then Some (b - 0x41 + 10)
      else None)"

text \<open>\<open>getu4\<close> reads a \<^verbatim>\<open>\uXXXX\<close> escape at the head of its argument; \<open>None\<close> is Go's \<open>-1\<close>.\<close>

definition getu4 :: "string \<Rightarrow> nat option" where
  "getu4 s =
     (if length s < 6 \<or> s ! 0 \<noteq> CHR 0x5C \<or> s ! 1 \<noteq> CHR ''u'' then None
      else fold (\<lambda>c r. case r of
                          None \<Rightarrow> None
                        | Some r' \<Rightarrow> (case hex_value c of
                                       None \<Rightarrow> None
                                     | Some d \<Rightarrow> Some (r' * 16 + d)))
                (take 4 (drop 2 s)) (Some 0))"

definition IsSurrogate :: "nat \<Rightarrow> bool" where
  "IsSurrogate r = (0xD800 \<le> r \<and> r < 0xE000)"

definition utf16_DecodeRune :: "nat \<Rightarrow> nat option \<Rightarrow> nat" where
  "utf16_DecodeRune r1 r2 =
     (case r2 of
        None \<Rightarrow> RuneError
      | Some r2' \<Rightarrow>
          if 0xD800 \<le> r1 \<and> r1 < 0xDC00 \<and> 0xDC00 \<le> r2' \<and> r2' < 0xE000
          then (r1 - 0xD800) * 1024 + (r2' - 0xDC00) + 0x10000
          else RuneError)"

definition emit :: "string \<Rightarrow> (string \<times> string) option \<Rightarrow> (string \<times> string) option" where
  "emit bs r = (case r of None \<Rightarrow> None | Some (t, rest) \<Rightarrow> Some (bs @ t, rest))"

text \<open>
  \<open>string_literal\<close> reads a string after its opening quote, up to and including the
  closing quote, and returns the bytes it denotes and the text that follows. It is the
  scanner's check and \<^verbatim>\<open>unquote\<close> in one pass: a control byte or an unknown escape is
  an error; an escaped surrogate is combined with the one after it or replaced by
  U+FFFD; a byte that does not start a well-formed UTF-8 encoding is replaced by U+FFFD.
\<close>

function string_literal :: "string \<Rightarrow> (string \<times> string) option" where
  "string_literal [] = None"
| "string_literal (c # s) =
     (if c = CHR 0x22 then Some ([], s)
      else if c = CHR 0x5C then
        (case s of
           [] \<Rightarrow> None
         | e # s' \<Rightarrow>
             if e = CHR 0x22 \<or> e = CHR 0x5C \<or> e = CHR ''/'' then emit [e] (string_literal s')
             else if e = CHR ''b'' then emit [CHR 0x08] (string_literal s')
             else if e = CHR ''f'' then emit [CHR 0x0C] (string_literal s')
             else if e = CHR ''n'' then emit [CHR 0x0A] (string_literal s')
             else if e = CHR ''r'' then emit [CHR 0x0D] (string_literal s')
             else if e = CHR ''t'' then emit [CHR 0x09] (string_literal s')
             else if e = CHR ''u'' then
               (case getu4 (c # s) of
                  None \<Rightarrow> None
                | Some rr \<Rightarrow>
                    if IsSurrogate rr then
                      (if utf16_DecodeRune rr (getu4 (drop 5 s)) \<noteq> RuneError
                       then emit (EncodeRune (utf16_DecodeRune rr (getu4 (drop 5 s))))
                              (string_literal (drop 11 s))
                       else emit (EncodeRune RuneError) (string_literal (drop 5 s)))
                    else emit (EncodeRune rr) (string_literal (drop 5 s)))
             else None)
      else if (of_char c :: nat) < 0x20 then None
      else if (of_char c :: nat) < 0x80 then emit [c] (string_literal s)
      else
        (case DecodeRuneInString (c # s) of
           (rr, n) \<Rightarrow> emit (EncodeRune rr) (string_literal (drop (n - 1) s))))"
  by pat_completeness auto
termination
  by (relation "measure length") auto

text \<open>The value of a member: a string, or \<^verbatim>\<open>null\<close> for the empty string.\<close>

definition member_value :: "string \<Rightarrow> (string \<times> string) option" where
  "member_value s =
     (case s of
        [] \<Rightarrow> None
      | c # s' \<Rightarrow>
          if c = CHR 0x22 then string_literal s'
          else if take 4 s = ''null'' then Some ([], drop 4 s)
          else None)"

text \<open>
  The members of an object, from the opening quote of the first key to the closing
  brace: a key, a colon, a value, and then a comma and the next member, or the brace.
\<close>

function members :: "string \<Rightarrow> (table \<times> string) option" where
  "members [] = None"
| "members (c # s1) =
     (if c \<noteq> CHR 0x22 then None
      else
        (case string_literal s1 of
           None \<Rightarrow> None
         | Some (k, s2) \<Rightarrow>
             (case skip_space s2 of
                [] \<Rightarrow> None
              | c2 # s3 \<Rightarrow>
                  if c2 \<noteq> CHR '':'' then None
                  else
                    (case member_value (skip_space s3) of
                       None \<Rightarrow> None
                     | Some (v, s4) \<Rightarrow>
                         (case skip_space s4 of
                            [] \<Rightarrow> None
                          | c5 # s5 \<Rightarrow>
                              if c5 = CHR '','' then
                                (case members (skip_space s5) of
                                   None \<Rightarrow> None
                                 | Some (es, rest) \<Rightarrow> Some ((k, v) # es, rest))
                              else if c5 = CHR ''}'' then Some ([(k, v)], s5)
                              else None)))))"
  by pat_completeness auto
termination
proof (relation "measure length")
  show "wf (measure length)" by simp
next
  \<comment> \<open>Reading a string or a value consumes input.\<close>
  have emit_Some: "\<exists>t'. r = Some (t', rest)" if "emit bs r = Some (t, rest)" for bs r t rest
    using that by (auto simp: emit_def split: option.splits)
  have string_literal_length: "length rest < length s"
    if "string_literal s = Some (t, rest)" for s t rest
    using that
  proof (induction "length s" arbitrary: s t rest rule: less_induct)
    case less
    show ?case
    proof (cases s)
      case Nil
      with less.prems show ?thesis by simp
    next
      case (Cons c s0)
      have step: "length rest < length s'"
        if "string_literal s' = Some (t', rest)" "length s' \<le> length s0" for s' t'
        using less.hyps [of s' t' rest] that Cons by simp
      show ?thesis
        using less.prems unfolding Cons
        apply (auto dest!: emit_Some split: if_splits list.splits option.splits prod.splits)
        apply (frule step; simp)+
        done
    qed
  qed
  have member_value_length: "length rest < length s"
    if "member_value s = Some (v, rest)" for s v rest
    using that
    by (cases s) (auto simp: member_value_def dest: string_literal_length split: if_splits)
  have skip_space_length: "length (skip_space s) \<le> length s" for s
    by (simp add: skip_space_def length_dropWhile_le)
  fix c :: char and s1 kr k s2 c2 s3 vr v s4 c5 s5
  assume "string_literal s1 = Some kr" and "(k, s2) = kr"
    and "skip_space s2 = c2 # s3" and "member_value (skip_space s3) = Some vr"
    and "(v, s4) = vr" and "skip_space s4 = c5 # s5"
  then have "length s2 < length s1" and "length (c2 # s3) \<le> length s2"
    and "length s4 < length (skip_space s3)" and "length (c5 # s5) \<le> length s4"
    using string_literal_length [of s1 k s2] skip_space_length [of s2]
      member_value_length [of "skip_space s3" v s4] skip_space_length [of s4]
    by simp_all
  then show "(skip_space s5, c # s1) \<in> measure length"
    using skip_space_length [of s3] skip_space_length [of s5] by simp
qed

definition object :: "string \<Rightarrow> (table \<times> string) option" where
  "object s =
     (case skip_space s of
        [] \<Rightarrow> None
      | c # s' \<Rightarrow> if c = CHR ''}'' then Some ([], s') else members (c # s'))"

text \<open>
  \<open>Unmarshal data m\<close> is \<^verbatim>\<open>json.Unmarshal(data, &m)\<close>: the error, or the map afterwards.
  An object is stored into the map that is there, one member after the other, so that
  entries under other keys stay and the last of two members with one key wins (``If the
  map is nil, Unmarshal allocates a new map. Otherwise Unmarshal reuses the existing
  map, keeping existing entries.'').
\<close>

definition entries :: "table option \<Rightarrow> table" where
  "entries m = (case m of None \<Rightarrow> [] | Some t \<Rightarrow> t)"

definition store_members :: "table \<Rightarrow> table \<Rightarrow> table" where
  "store_members es t = fold (\<lambda>e. AList.update (fst e) (snd e)) es t"

definition Unmarshal :: "string \<Rightarrow> table option \<Rightarrow> error + table option" where
  "Unmarshal data m =
     (case skip_space data of
        [] \<Rightarrow> Inl ParseError
      | c # s \<Rightarrow>
          if c = CHR ''{'' then
            (case object s of
               None \<Rightarrow> Inl ParseError
             | Some (es, rest) \<Rightarrow>
                 if skip_space rest = [] then Inr (Some (store_members es (entries m)))
                 else Inl ParseError)
          else if take 4 (c # s) = ''null'' \<and> skip_space (drop 4 (c # s)) = [] then Inr None
          else Inl ParseError)"

subsection \<open>Standard input and output\<close>

text \<open>
  Standard output and the error stream are the bytes written to them. Standard input is
  seen through a \<^verbatim>\<open>bufio.Scanner\<close>: \<open>tokens\<close> are the lines that successive calls of
  \<^verbatim>\<open>Scan\<close> deliver (\<^verbatim>\<open>scanner.Text()\<close>, without the line end), and \<open>failed\<close> says
  whether the scanner stops after them on an error (a read error, or a line too long
  for its buffer) rather than at the end of the input.
\<close>

record console =
  tokens :: "string list"
  failed :: bool

definition Println :: "string \<Rightarrow> string" where
  "Println s = s @ [CHR 0x0A]"

text \<open>\<^verbatim>\<open>strings.Join\<close>.\<close>

fun Join :: "string list \<Rightarrow> string \<Rightarrow> string" where
  "Join [] sep = []"
| "Join [x] sep = x"
| "Join (x # y # ys) sep = x @ sep @ Join (y # ys) sep"

definition quoted :: "string \<Rightarrow> string" where
  "quoted name = [CHR 0x27] @ name @ [CHR 0x27]"

text \<open>
  The text of an error, \<^verbatim>\<open>err.Error()\<close>. The source words only the error of \<open>Delete\<close>;
  the wording of the errors that come out of the libraries is not modelled, a fixed tag
  stands for each kind.
\<close>

fun Error :: "error \<Rightarrow> string" where
  "Error (NotFoundError name) = ''Snippet '' @ quoted name @ '' not found''"
| "Error NotExist = ''file does not exist''"
| "Error IOError = ''input/output error''"
| "Error ParseError = ''invalid JSON''"
| "Error ScanError = ''scanner error''"
| "Error NilMapPanic = ''assignment to entry in nil map''"

subsection \<open>The snippet manager\<close>

text \<open>
  \<^verbatim>\<open>filepath.Join\<close> without the cleaning of the result (\<^verbatim>\<open>filepath.Clean\<close>), which only
  changes how the path is spelled: empty elements are dropped, the others are joined by
  the separator.
\<close>

definition filepath_Join :: "string list \<Rightarrow> string" where
  "filepath_Join elems = Join (filter (\<lambda>e. e \<noteq> []) elems) ''/''"

definition NewSnippetManager :: "string \<Rightarrow> SnippetManager" where
  "NewSnippetManager home =
     (let configDir = filepath_Join [home, ''.config'', ''micro'']
      in \<lparr>Filepath = filepath_Join [configDir, ''snippets.json''], Snippets = Some []\<rparr>)"

text \<open>
  \<open>Load\<close> returns the error (\<open>Inl\<close>), or the manager as it is after a call that returned
  nil (\<open>Inr\<close>). What the manager holds after a call that failed is not modelled: \<open>main\<close>
  exits at once.
\<close>

definition Load :: "SnippetManager \<Rightarrow> filesystem \<Rightarrow> error + SnippetManager" where
  "Load sm fs =
     (case ReadFile fs (Filepath sm) of
        Inl err \<Rightarrow> if IsNotExist err then Inr (sm\<lparr>Snippets := Some []\<rparr>) else Inl err
      | Inr data \<Rightarrow>
          (case Unmarshal data (Snippets sm) of
             Inl err \<Rightarrow> Inl err
           | Inr m \<Rightarrow> Inr (sm\<lparr>Snippets := m\<rparr>)))"

definition Save :: "SnippetManager \<Rightarrow> filesystem \<Rightarrow> error option \<times> filesystem" where
  "Save sm fs = WriteFile fs (Filepath sm) (MarshalIndent (Snippets sm))"

text \<open>\<open>List\<close> and \<open>Show\<close> return what they print on standard output.\<close>

definition List :: "SnippetManager \<Rightarrow> string" where
  "List sm =
     (if length (entries (Snippets sm)) = 0 then Println ''No snippets saved.''
      else
        let keys = sort (map fst (entries (Snippets sm)))
        in Println ''Saved snippets:'' @ concat (map (\<lambda>k. Println (''- '' @ k)) keys))"

text \<open>
  The loop of \<open>Add\<close> over the scanner: the lines before the first empty one, and whether
  the loop ended because \<^verbatim>\<open>Scan\<close> returned false rather than at the \<^verbatim>\<open>break\<close>.
\<close>

fun read_lines :: "string list \<Rightarrow> string list \<times> bool" where
  "read_lines [] = ([], True)"
| "read_lines (line # rest) =
     (if line = [] then ([], False)
      else (case read_lines rest of (lines, ended) \<Rightarrow> (line # lines, ended)))"

text \<open>
  \<open>Add\<close> returns what it prints on standard output, its error, the manager and the file
  system afterwards. An assignment into the nil map panics.
\<close>

definition Add ::
  "SnippetManager \<Rightarrow> string \<Rightarrow> console \<Rightarrow> filesystem
     \<Rightarrow> string \<times> error option \<times> SnippetManager \<times> filesystem" where
  "Add sm name inp fs =
     (let out = Println ''Paste your snippet. End input with an empty line:'' in
      case read_lines (tokens inp) of
        (lines, ended) \<Rightarrow>
          if ended \<and> failed inp then (out, Some ScanError, sm, fs)
          else
            (case Snippets sm of
               None \<Rightarrow> (out, Some NilMapPanic, sm, fs)
             | Some t \<Rightarrow>
                 let snippet = Join lines [CHR 0x0A];
                     sm' = sm\<lparr>Snippets := Some (AList.update name snippet t)\<rparr>
                 in (case Save sm' fs of (err, fs') \<Rightarrow> (out, err, sm', fs'))))"

definition Show :: "SnippetManager \<Rightarrow> string \<Rightarrow> string" where
  "Show sm name =
     (case map_of (entries (Snippets sm)) name of
        None \<Rightarrow> ''Snippet '' @ quoted name @ '' not found.'' @ [CHR 0x0A]
      | Some snippet \<Rightarrow> Println snippet)"

text \<open>\<open>Delete\<close> returns its error, the manager and the file system afterwards.\<close>

definition Delete ::
  "SnippetManager \<Rightarrow> string \<Rightarrow> filesystem \<Rightarrow> error option \<times> SnippetManager \<times> filesystem" where
  "Delete sm name fs =
     (case map_of (entries (Snippets sm)) name of
        None \<Rightarrow> (Some (NotFoundError name), sm, fs)
      | Some _ \<Rightarrow>
          let sm' = sm\<lparr>Snippets := map_option (AList.delete name) (Snippets sm)\<rparr>
          in (case Save sm' fs of (err, fs') \<Rightarrow> (err, sm', fs')))"

definition printUsage :: string where
  "printUsage =
     Println ''Micro Snippet Manager - Manage code snippets for micro editor''
     @ Println ''Usage:''
     @ Println ''  snippetmanager list                 # List all snippets''
     @ Println ''  snippetmanager add <name>           # Add snippet (input from stdin)''
     @ Println ''  snippetmanager show <name>          # Show snippet content''
     @ Println ''  snippetmanager delete <name>        # Delete snippet''
     @ Println (CHR 0x0A # ''Snippets are stored in ~/.config/micro/snippets.json'')"

subsection \<open>The command line\<close>

text \<open>
  One run of the program: \<open>args\<close> is \<^verbatim>\<open>os.Args\<close> (the program's name first), \<open>home\<close> the
  value of \<^verbatim>\<open>HOME\<close>. The outcome is what was written to the two streams, the exit
  status (1 from \<^verbatim>\<open>os.Exit(1)\<close>, 0 when \<open>main\<close> returns, 2 when the runtime ends the
  program on a panic, whose stack trace is left out of \<open>stderr\<close>), and the file system.
\<close>

record outcome =
  stdout :: string
  stderr :: string
  exit_code :: nat
  files :: filesystem

definition main :: "string list \<Rightarrow> string \<Rightarrow> console \<Rightarrow> filesystem \<Rightarrow> outcome" where
  "main args home inp fs =
     (case Load (NewSnippetManager home) fs of
        Inl err \<Rightarrow>
          \<lparr>stdout = [], stderr = ''Error loading snippets: '' @ Error err @ [CHR 0x0A],
           exit_code = 1, files = fs\<rparr>
      | Inr sm \<Rightarrow>
          if length args < 2
          then \<lparr>stdout = printUsage, stderr = [], exit_code = 1, files = fs\<rparr>
          else if args ! 1 = ''list''
          then \<lparr>stdout = List sm, stderr = [], exit_code = 0, files = fs\<rparr>
          else if args ! 1 = ''add'' then
            (if length args < 3
             then \<lparr>stdout = Println ''Please provide snippet name.'', stderr = [],
                   exit_code = 1, files = fs\<rparr>
             else
               (case Add sm (args ! 2) inp fs of
                  (out, err, sm', fs') \<Rightarrow>
                    (case err of
                       None \<Rightarrow>
                         \<lparr>stdout = out @ ''Snippet '' @ quoted (args ! 2) @ '' added.''
                                    @ [CHR 0x0A],
                          stderr = [], exit_code = 0, files = fs'\<rparr>
                     | Some e \<Rightarrow>
                         if e = NilMapPanic
                         then \<lparr>stdout = out, stderr = ''panic: '' @ Error e @ [CHR 0x0A],
                               exit_code = 2, files = fs'\<rparr>
                         else \<lparr>stdout = out,
                               stderr = ''Error adding snippet: '' @ Error e @ [CHR 0x0A],
                               exit_code = 1, files = fs'\<rparr>)))
          else if args ! 1 = ''show'' then
            (if length args < 3
             then \<lparr>stdout = Println ''Please provide snippet name.'', stderr = [],
                   exit_code = 1, files = fs\<rparr>
             else \<lparr>stdout = Show sm (args ! 2), stderr = [], exit_code = 0, files = fs\<rparr>)
          else if args ! 1 = ''delete'' then
            (if length args < 3
             then \<lparr>stdout = Println ''Please provide snippet name.'', stderr = [],
                   exit_code = 1, files = fs\<rparr>
             else
               (case Delete sm (args ! 2) fs of
                  (err, sm', fs') \<Rightarrow>
                    (case err of
                       None \<Rightarrow>
                         \<lparr>stdout = ''Snippet '' @ quoted (args ! 2) @ '' deleted.''
                                    @ [CHR 0x0A],
                          stderr = [], exit_code = 0, files = fs'\<rparr>
                     | Some e \<Rightarrow>
                         \<lparr>stdout = [],
                          stderr = ''Error deleting snippet: '' @ Error e @ [CHR 0x0A],
                          exit_code = 1, files = fs'\<rparr>)))
          else \<lparr>stdout = printUsage, stderr = [], exit_code = 1, files = fs\<rparr>)"

subsection \<open>Notions used in the properties\<close>

text \<open>
  What \<open>appendString\<close> followed by \<open>string_literal\<close> makes of a string: every byte
  that does not start a well-formed UTF-8 encoding becomes U+FFFD, the rest stays. A
  string of valid UTF-8 (\<open>ValidString\<close>) comes back as it is.
\<close>

function coerce_utf8 :: "string \<Rightarrow> string" where
  "coerce_utf8 [] = []"
| "coerce_utf8 (c # s) =
     (if (of_char c :: nat) < 0x80 then c # coerce_utf8 s
      else
        (case DecodeRuneInString (c # s) of
           (r, n) \<Rightarrow>
             if r = RuneError \<and> n = 1 then EncodeRune RuneError @ coerce_utf8 s
             else c # take (n - 1) s @ coerce_utf8 (drop (n - 1) s)))"
  by pat_completeness auto
termination
  by (relation "measure length") auto

definition coerce_entry :: "string \<times> string \<Rightarrow> string \<times> string" where
  "coerce_entry e = (coerce_utf8 (fst e), coerce_utf8 (snd e))"

definition valid_table :: "table \<Rightarrow> bool" where
  "valid_table t = (\<forall>e \<in> set t. ValidString (fst e) \<and> ValidString (snd e))"

text \<open>
  A table without the empty name; a file system from which the program loads such a
  table (or fails to load); and a sequence of runs of the program, each with its
  arguments and its input, on the file system the run before has left.
\<close>

definition no_empty_name :: "table option \<Rightarrow> bool" where
  "no_empty_name m = ([] \<notin> fst ` set (entries m))"

definition names_ok :: "string \<Rightarrow> filesystem \<Rightarrow> bool" where
  "names_ok home fs =
     (case Load (NewSnippetManager home) fs of
        Inl err \<Rightarrow> True
      | Inr sm \<Rightarrow> no_empty_name (Snippets sm))"

fun run_all :: "(string list \<times> console) list \<Rightarrow> string \<Rightarrow> filesystem \<Rightarrow> filesystem" where
  "run_all [] home fs = fs"
| "run_all (run # runs) home fs = run_all runs home (files (main (fst run) home (snd run) fs))"

text \<open>
  What the claims call a JSON object, written after the grammar of JSON (RFC 8259) and
  not after the decoder, with which it is compared below. The grammar is read over
  bytes: any byte from \<^verbatim>\<open>0x20\<close> up, other than the quotation mark and the backslash,
  may stand in a string as it is, whether or not the bytes are well-formed UTF-8. White
  space is space, tab, line feed and carriage return; a string is a pair of quotation
  marks around such bytes, the two-byte escapes and the escapes of four hexadecimal
  digits; a member is a string, a colon and a value, with white space around the colon;
  an object is a pair of braces around white space or around members separated by
  commas. The values a member may have are a parameter: \<open>string_pairs_object\<close> is an
  object of string-to-string pairs, \<open>json_object\<close> one whose values are strings or
  \<^verbatim>\<open>null\<close>. \<open>json_null\<close> is the text that holds nothing but the literal \<^verbatim>\<open>null\<close>, and
  \<open>strip_ws\<close> drops the white space of a text.
\<close>

definition json_ws :: "string \<Rightarrow> bool" where
  "json_ws w = (set w \<subseteq> {CHR '' '', CHR 0x09, CHR 0x0A, CHR 0x0D})"

definition is_hex :: "char \<Rightarrow> bool" where
  "is_hex c =
     ((0x30 \<le> (of_char c :: nat) \<and> (of_char c :: nat) \<le> 0x39)
      \<or> (0x41 \<le> (of_char c :: nat) \<and> (of_char c :: nat) \<le> 0x46)
      \<or> (0x61 \<le> (of_char c :: nat) \<and> (of_char c :: nat) \<le> 0x66))"

inductive json_chars :: "string \<Rightarrow> bool" where
  empty: "json_chars []"
| plain: "0x20 \<le> (of_char c :: nat) \<Longrightarrow> c \<noteq> CHR 0x22 \<Longrightarrow> c \<noteq> CHR 0x5C \<Longrightarrow> json_chars s
          \<Longrightarrow> json_chars (c # s)"
| escape: "e \<in> set [CHR 0x22, CHR 0x5C, CHR ''/'', CHR ''b'', CHR ''f'', CHR ''n'', CHR ''r'',
                      CHR ''t''] \<Longrightarrow> json_chars s
          \<Longrightarrow> json_chars (CHR 0x5C # e # s)"
| unicode: "is_hex h1 \<Longrightarrow> is_hex h2 \<Longrightarrow> is_hex h3 \<Longrightarrow> is_hex h4 \<Longrightarrow> json_chars s
          \<Longrightarrow> json_chars (CHR 0x5C # CHR ''u'' # h1 # h2 # h3 # h4 # s)"

definition json_string :: "string \<Rightarrow> bool" where
  "json_string x = (\<exists>cs. x = CHR 0x22 # cs @ [CHR 0x22] \<and> json_chars cs)"

definition json_value :: "string \<Rightarrow> bool" where
  "json_value x = (json_string x \<or> x = ''null'')"

definition json_member :: "(string \<Rightarrow> bool) \<Rightarrow> string \<Rightarrow> bool" where
  "json_member V x =
     (\<exists>k w1 w2 v. x = k @ w1 @ CHR '':'' # w2 @ v
        \<and> json_string k \<and> json_ws w1 \<and> json_ws w2 \<and> V v)"

inductive json_members :: "(string \<Rightarrow> bool) \<Rightarrow> string \<Rightarrow> bool" for V where
  one: "json_ws w1 \<Longrightarrow> json_member V x \<Longrightarrow> json_ws w2 \<Longrightarrow> json_members V (w1 @ x @ w2)"
| more: "json_ws w1 \<Longrightarrow> json_member V x \<Longrightarrow> json_ws w2 \<Longrightarrow> json_members V rest
         \<Longrightarrow> json_members V (w1 @ x @ w2 @ CHR '','' # rest)"

definition json_object_of :: "(string \<Rightarrow> bool) \<Rightarrow> string \<Rightarrow> bool" where
  "json_object_of V d =
     (\<exists>w0 body w9. d = w0 @ CHR ''{'' # body @ CHR ''}'' # w9
        \<and> json_ws w0 \<and> json_ws w9 \<and> (json_ws body \<or> json_members V body))"

definition string_pairs_object :: "string \<Rightarrow> bool" where
  "string_pairs_object d = json_object_of json_string d"

definition json_object :: "string \<Rightarrow> bool" where
  "json_object d = json_object_of json_value d"

definition json_null :: "string \<Rightarrow> bool" where
  "json_null d = (\<exists>w0 w9. d = w0 @ ''null'' @ w9 \<and> json_ws w0 \<and> json_ws w9)"

definition strip_ws :: "string \<Rightarrow> string" where
  "strip_ws s = filter (\<lambda>c. c \<notin> {CHR '' '', CHR 0x09, CHR 0x0A, CHR 0x0D}) s"

section \<open>Properties\<close>

subsection \<open>Tables\<close>

lemma read_lines_takeWhile:
  "read_lines ls = (takeWhile (\<lambda>l. l \<noteq> []) ls, [] \<notin> set ls)"
  by (induction ls) auto

lemma wf_table_update: "wf_table t \<Longrightarrow> wf_table (AList.update k v t)"
  by (simp add: wf_table_def distinct_update)

lemma wf_table_delete: "wf_table t \<Longrightarrow> wf_table (AList.delete k t)"
  by (simp add: wf_table_def distinct_delete)

lemma wf_table_keys_eq:
  assumes "wf_table t1" "wf_table t2" "map_of t1 = map_of t2"
  shows "sort (map fst t1) = sort (map fst t2)"
proof -
  have "set (map fst t1) = set (map fst t2)"
    using assms(3) by (metis dom_map_of_conv_image_fst set_map)
  moreover have "distinct (map fst t1)" "distinct (map fst t2)"
    using assms(1,2) by (simp_all add: wf_table_def)
  ultimately show ?thesis
    by (intro sorted_distinct_set_unique) simp_all
qed

lemma wf_table_length_eq:
  assumes "wf_table t1" "wf_table t2" "map_of t1 = map_of t2"
  shows "length t1 = length t2"
proof -
  have "length (sort (map fst t1)) = length (sort (map fst t2))"
    using wf_table_keys_eq [OF assms] by simp
  then show ?thesis by simp
qed

lemma wf_table_single_entry:
  assumes "wf_table t" "map_of t k = Some v"
  shows "filter (\<lambda>e. fst e = k) t = [(k, v)]"
  using assms
proof (induction t)
  case Nil
  then show ?case by simp
next
  case (Cons e t)
  show ?case
  proof (cases "fst e = k")
    case True
    with Cons.prems have "e = (k, v)" by (cases e) auto
    moreover have "k \<notin> fst ` set t"
      using Cons.prems(1) True by (simp add: wf_table_def)
    then have "filter (\<lambda>e. fst e = k) t = []"
      by (auto simp: filter_empty_conv)
    ultimately show ?thesis by simp
  next
    case False
    with Cons show ?thesis by (cases e) (auto simp: wf_table_def)
  qed
qed

text \<open>
  Claim C5. For every table, \<open>List\<close> prints exactly the notice that no snippets are
  saved when the table is empty; otherwise it prints, after its heading, one line
  \<^verbatim>\<open>- name\<close> for each entry, the names in strictly ascending order of their bytes.
\<close>

theorem List_prints_sorted_names:
  assumes "Snippets sm = Some t" and "wf_table t"
  shows "(t = [] \<longrightarrow> List sm = ''No snippets saved.'' @ [CHR 0x0A]) \<and>
         (t \<noteq> [] \<longrightarrow>
            (\<exists>names. List sm = ''Saved snippets:'' @ [CHR 0x0A]
                         @ concat (map (\<lambda>k. ''- '' @ k @ [CHR 0x0A]) names)
                     \<and> sorted_wrt (<) names
                     \<and> set names = fst ` set t \<and> length names = length t))"
proof (intro conjI impI)
  assume "t = []"
  with assms show "List sm = ''No snippets saved.'' @ [CHR 0x0A]"
    by (simp add: List_def entries_def Println_def)
next
  assume ne: "t \<noteq> []"
  let ?names = "sort (map fst t)"
  have "distinct ?names" using assms(2) by (simp add: wf_table_def)
  then have "sorted_wrt (<) ?names"
    by (simp add: strict_sorted_iff)
  moreover have "List sm = ''Saved snippets:'' @ [CHR 0x0A]
                   @ concat (map (\<lambda>k. ''- '' @ k @ [CHR 0x0A]) ?names)"
    using assms(1) ne by (simp add: List_def entries_def Println_def)
  ultimately show "\<exists>names. List sm = ''Saved snippets:'' @ [CHR 0x0A]
                         @ concat (map (\<lambda>k. ''- '' @ k @ [CHR 0x0A]) names)
                     \<and> sorted_wrt (<) names
                     \<and> set names = fst ` set t \<and> length names = length t"
    by (intro exI [of _ ?names]) simp
qed

theorem List_prints_sorted_names_witness:
  "wf_table [(''b'', ''1''), (''a'', ''2''), (''B'', ''3'')]
   \<and> (\<exists>names. List \<lparr>Filepath = ''f'',
                      Snippets = Some [(''b'', ''1''), (''a'', ''2''), (''B'', ''3'')]\<rparr>
               = ''Saved snippets:'' @ [CHR 0x0A] @ concat (map (\<lambda>k. ''- '' @ k @ [CHR 0x0A]) names)
             \<and> sorted_wrt (<) names
             \<and> set names = fst ` set [(''b'', ''1''), (''a'', ''2''), (''B'', ''3'')]
             \<and> length names = length [(''b'', ''1''), (''a'', ''2''), (''B'', ''3'')])
   \<and> List \<lparr>Filepath = ''f'', Snippets = Some [(''b'', ''1''), (''a'', ''2''), (''B'', ''3'')]\<rparr>
       = ''Saved snippets:'' @ [CHR 0x0A] @ ''- B'' @ [CHR 0x0A] @ ''- a'' @ [CHR 0x0A]
           @ ''- b'' @ [CHR 0x0A]"
proof -
  have "List \<lparr>Filepath = ''f'', Snippets = Some [(''b'', ''1''), (''a'', ''2''), (''B'', ''3'')]\<rparr>
          = ''Saved snippets:'' @ [CHR 0x0A] @ ''- B'' @ [CHR 0x0A] @ ''- a'' @ [CHR 0x0A]
              @ ''- b'' @ [CHR 0x0A]"
    by (simp add: List_def entries_def Println_def)
  then show ?thesis
    using List_prints_sorted_names
      [of "\<lparr>Filepath = ''f'', Snippets = Some [(''b'', ''1''), (''a'', ''2''), (''B'', ''3'')]\<rparr>"
          "[(''b'', ''1''), (''a'', ''2''), (''B'', ''3'')]"]
    by (simp add: wf_table_def)
qed

text \<open>
  Claim C10. \<open>List\<close> is deterministic: on two tables that are the same mapping, whatever
  the order in which the map hands out its entries, it prints the same text.
\<close>

theorem List_deterministic:
  assumes "Snippets sm1 = Some t1" and "Snippets sm2 = Some t2"
    and "wf_table t1" and "wf_table t2" and "map_of t1 = map_of t2"
  shows "List sm1 = List sm2"
proof -
  have "sort (map fst t1) = sort (map fst t2)"
    using assms(3-5) by (rule wf_table_keys_eq)
  moreover have "length t1 = length t2"
    using assms(3-5) by (rule wf_table_length_eq)
  ultimately show ?thesis
    using assms(1,2) by (simp add: List_def entries_def)
qed

theorem List_deterministic_witness:
  "wf_table [(''b'', ''1''), (''a'', ''2'')] \<and> wf_table [(''a'', ''2''), (''b'', ''1'')]
   \<and> map_of [(''b'', ''1''), (''a'', ''2'')] = map_of [(''a'', ''2''), (''b'', ''1'')]
   \<and> List \<lparr>Filepath = ''f'', Snippets = Some [(''b'', ''1''), (''a'', ''2'')]\<rparr>
       = List \<lparr>Filepath = ''g'', Snippets = Some [(''a'', ''2''), (''b'', ''1'')]\<rparr>"
proof -
  have m: "map_of [(''b'', ''1''), (''a'', ''2'')] = map_of [(''a'', ''2''), (''b'', ''1'')]"
    by (auto simp: fun_eq_iff)
  have w: "wf_table [(''b'', ''1''), (''a'', ''2'')]" "wf_table [(''a'', ''2''), (''b'', ''1'')]"
    by (simp_all add: wf_table_def)
  show ?thesis
    using m w List_deterministic
      [of "\<lparr>Filepath = ''f'', Snippets = Some [(''b'', ''1''), (''a'', ''2'')]\<rparr>"
          "[(''b'', ''1''), (''a'', ''2'')]"
          "\<lparr>Filepath = ''g'', Snippets = Some [(''a'', ''2''), (''b'', ''1'')]\<rparr>"
          "[(''a'', ''2''), (''b'', ''1'')]"]
    by simp
qed

subsection \<open>The operations of the store\<close>

text \<open>
  Claim C3. For every table and every name that is not in it, \<open>Delete\<close> fails with the
  not-found error and leaves the table (and the file) as they were; for every name that
  is in it, \<open>Delete\<close> removes exactly that entry, and a \<open>Show\<close> of the name right after
  reports that it is not found.
\<close>

theorem Delete_absent_fails_present_removes:
  "(map_of (entries (Snippets sm)) name = None \<longrightarrow>
      Delete sm name fs = (Some (NotFoundError name), sm, fs)) \<and>
   (map_of (entries (Snippets sm)) name \<noteq> None \<longrightarrow>
      (case Delete sm name fs of
         (err, sm', fs') \<Rightarrow>
           map_of (entries (Snippets sm')) = (map_of (entries (Snippets sm)))(name := None)
           \<and> Show sm' name = ''Snippet '' @ quoted name @ '' not found.'' @ [CHR 0x0A]))"
proof (intro conjI impI)
  assume "map_of (entries (Snippets sm)) name = None"
  then show "Delete sm name fs = (Some (NotFoundError name), sm, fs)"
    by (simp add: Delete_def)
next
  assume "map_of (entries (Snippets sm)) name \<noteq> None"
  then obtain v t where v: "map_of (entries (Snippets sm)) name = Some v"
    and t: "Snippets sm = Some t"
    by (cases "Snippets sm") (auto simp: entries_def)
  obtain err fs' where s: "Save (sm\<lparr>Snippets := Some (AList.delete name t)\<rparr>) fs = (err, fs')"
    by (cases "Save (sm\<lparr>Snippets := Some (AList.delete name t)\<rparr>) fs") auto
  have d: "Delete sm name fs = (err, sm\<lparr>Snippets := Some (AList.delete name t)\<rparr>, fs')"
    using v t s by (simp add: Delete_def)
  show "case Delete sm name fs of
         (err, sm', fs') \<Rightarrow>
           map_of (entries (Snippets sm')) = (map_of (entries (Snippets sm)))(name := None)
           \<and> Show sm' name = ''Snippet '' @ quoted name @ '' not found.'' @ [CHR 0x0A]"
    unfolding d using t by (simp add: entries_def Show_def delete_conv')
qed

theorem Delete_absent_fails_present_removes_witness:
  "map_of (entries (Snippets \<lparr>Filepath = ''f'', Snippets = Some [(''a'', ''1'')]\<rparr>)) ''b'' = None
   \<and> Delete \<lparr>Filepath = ''f'', Snippets = Some [(''a'', ''1'')]\<rparr> ''b'' (\<lambda>_. Missing)
       = (Some (NotFoundError ''b''), \<lparr>Filepath = ''f'', Snippets = Some [(''a'', ''1'')]\<rparr>,
          \<lambda>_. Missing)
   \<and> map_of (entries (Snippets \<lparr>Filepath = ''f'', Snippets = Some [(''a'', ''1'')]\<rparr>)) ''a'' \<noteq> None
   \<and> (case Delete \<lparr>Filepath = ''f'', Snippets = Some [(''a'', ''1'')]\<rparr> ''a'' (\<lambda>_. Missing) of
         (err, sm', fs') \<Rightarrow>
           map_of (entries (Snippets sm'))
             = (map_of (entries (Snippets \<lparr>Filepath = ''f'', Snippets = Some [(''a'', ''1'')]\<rparr>)))
                 (''a'' := None)
           \<and> Show sm' ''a'' = ''Snippet '' @ quoted ''a'' @ '' not found.'' @ [CHR 0x0A])"
  using Delete_absent_fails_present_removes
      [of "\<lparr>Filepath = ''f'', Snippets = Some [(''a'', ''1'')]\<rparr>" "''b''" "\<lambda>_. Missing"]
    Delete_absent_fails_present_removes
      [of "\<lparr>Filepath = ''f'', Snippets = Some [(''a'', ''1'')]\<rparr>" "''a''" "\<lambda>_. Missing"]
  by (simp add: entries_def)

lemma Add_stores:
  assumes "Snippets sm = Some t" and "\<not> failed inp \<or> [] \<in> set (tokens inp)"
  shows "fst (snd (snd (Add sm name inp fs)))
           = sm\<lparr>Snippets :=
               Some (AList.update name (Join (takeWhile (\<lambda>l. l \<noteq> []) (tokens inp)) [CHR 0x0A]) t)\<rparr>"
  using assms
  by (auto simp: Add_def Let_def read_lines_takeWhile split: prod.splits)

text \<open>
  Claim C2. For every name and every sequence of input lines, \<open>Add\<close> stores under the
  name the lines before the first empty line, joined by single newline characters, and
  a \<open>Show\<close> of the name right after prints exactly that body (as a line). The manager
  holds a table, as it does from \<open>NewSnippetManager\<close> on; an input is a sequence of lines
  when the scanner does not fail before it delivers an empty line.
\<close>

theorem Add_then_Show:
  assumes "Snippets sm = Some t" and "\<not> failed inp \<or> [] \<in> set (tokens inp)"
  shows "case Add sm x inp fs of
           (out, err, sm', fs') \<Rightarrow>
             map_of (entries (Snippets sm')) x
               = Some (Join (takeWhile (\<lambda>l. l \<noteq> []) (tokens inp)) [CHR 0x0A])
             \<and> Show sm' x
                 = Join (takeWhile (\<lambda>l. l \<noteq> []) (tokens inp)) [CHR 0x0A] @ [CHR 0x0A]"
  using Add_stores [OF assms, of x fs]
  by (auto simp: entries_def Show_def Println_def update_conv' split: prod.splits)

theorem Add_then_Show_witness:
  "Snippets \<lparr>Filepath = ''f'', Snippets = Some []\<rparr> = Some []
   \<and> [] \<in> set (tokens \<lparr>tokens = [''hello'', ''world'', '''', ''more''], failed = False\<rparr>)
   \<and> (case Add \<lparr>Filepath = ''f'', Snippets = Some []\<rparr> ''greet''
               \<lparr>tokens = [''hello'', ''world'', '''', ''more''], failed = False\<rparr> (\<lambda>_. Missing) of
         (out, err, sm', fs') \<Rightarrow>
           map_of (entries (Snippets sm')) ''greet'' = Some (''hello'' @ [CHR 0x0A] @ ''world'')
           \<and> Show sm' ''greet'' = ''hello'' @ [CHR 0x0A] @ ''world'' @ [CHR 0x0A])"
  using Add_then_Show
    [of "\<lparr>Filepath = ''f'', Snippets = Some []\<rparr>" "[]"
        "\<lparr>tokens = [''hello'', ''world'', '''', ''more''], failed = False\<rparr>" "''greet''"
        "\<lambda>_. Missing"]
  by simp

text \<open>
  Claim C4. For every table, name and pair of bodies, two calls of \<open>Add\<close> for the name
  leave the table mapping the name to the second body only: the other names are as
  they were and the table has one entry for the name, none for the first body. The
  second call prints what the first printed, the request to paste the snippet: it asks
  for no confirmation.
\<close>

theorem Add_twice_overwrites:
  assumes "Snippets sm = Some t" and "wf_table t"
    and "\<not> failed inp1 \<or> [] \<in> set (tokens inp1)"
    and "\<not> failed inp2 \<or> [] \<in> set (tokens inp2)"
  shows "case Add sm name inp1 fs of
           (out1, err1, sm1, fs1) \<Rightarrow>
             (case Add sm1 name inp2 fs1 of
                (out2, err2, sm2, fs2) \<Rightarrow>
                  out2 = out1
                  \<and> (\<exists>t2. Snippets sm2 = Some t2 \<and> wf_table t2
                    \<and> map_of t2 = (map_of t)
                          (name \<mapsto> Join (takeWhile (\<lambda>l. l \<noteq> []) (tokens inp2)) [CHR 0x0A])
                    \<and> filter (\<lambda>e. fst e = name) t2
                          = [(name, Join (takeWhile (\<lambda>l. l \<noteq> []) (tokens inp2)) [CHR 0x0A])]))"
proof -
  have out: "fst (Add sm' name inp fs') = Println ''Paste your snippet. End input with an empty line:''"
    for sm' inp fs'
    by (auto simp: Add_def Let_def split: prod.splits option.splits)
  let ?b1 = "Join (takeWhile (\<lambda>l. l \<noteq> []) (tokens inp1)) [CHR 0x0A]"
  let ?b2 = "Join (takeWhile (\<lambda>l. l \<noteq> []) (tokens inp2)) [CHR 0x0A]"
  let ?t2 = "AList.update name ?b2 (AList.update name ?b1 t)"
  obtain out1 err1 sm1 fs1 where a1: "Add sm name inp1 fs = (out1, err1, sm1, fs1)"
    by (cases "Add sm name inp1 fs") auto
  obtain out2 err2 sm2 fs2 where a2: "Add sm1 name inp2 fs1 = (out2, err2, sm2, fs2)"
    by (cases "Add sm1 name inp2 fs1") auto
  have 1: "sm1 = sm\<lparr>Snippets := Some (AList.update name ?b1 t)\<rparr>"
    using Add_stores [OF assms(1,3), of name fs] a1 by simp
  then have "Snippets sm1 = Some (AList.update name ?b1 t)" by simp
  then have 2: "sm2 = sm1\<lparr>Snippets := Some ?t2\<rparr>"
    using Add_stores [OF _ assms(4), of sm1 _ name fs1] a2 by simp
  have w: "wf_table ?t2"
    using assms(2) by (intro wf_table_update)
  have m: "map_of ?t2 = (map_of t)(name \<mapsto> ?b2)"
    by (simp add: update_conv')
  then have "map_of ?t2 name = Some ?b2" by simp
  with w have "filter (\<lambda>e. fst e = name) ?t2 = [(name, ?b2)]"
    by (rule wf_table_single_entry)
  moreover have "out2 = out1"
    using out [of sm inp1 fs] out [of sm1 inp2 fs1] by (simp add: a1 a2)
  ultimately show ?thesis using 2 w m by (simp add: a1 a2)
qed

theorem Add_twice_overwrites_witness:
  "wf_table [(''x'', ''old'')]
   \<and> (case Add \<lparr>Filepath = ''f'', Snippets = Some [(''x'', ''old'')]\<rparr> ''x''
               \<lparr>tokens = [''one'', ''''], failed = False\<rparr> (\<lambda>_. Missing) of
         (out1, err1, sm1, fs1) \<Rightarrow>
           (case Add sm1 ''x'' \<lparr>tokens = [''two'', ''lines''], failed = False\<rparr> fs1 of
              (out2, err2, sm2, fs2) \<Rightarrow>
                \<exists>t2. Snippets sm2 = Some t2
                  \<and> filter (\<lambda>e. fst e = ''x'') t2 = [(''x'', ''two'' @ [CHR 0x0A] @ ''lines'')]))"
  using Add_twice_overwrites
    [of "\<lparr>Filepath = ''f'', Snippets = Some [(''x'', ''old'')]\<rparr>" "[(''x'', ''old'')]"
        "\<lparr>tokens = [''one'', ''''], failed = False\<rparr>"
        "\<lparr>tokens = [''two'', ''lines''], failed = False\<rparr>"
        "''x''" "\<lambda>_. Missing"]
  by (auto simp: wf_table_def split: prod.splits)

subsection \<open>The command line\<close>

text \<open>
  Claim C7. When the name is not in the loaded table, \<^verbatim>\<open>show\<close> writes its notice to
  standard output and the program exits with status 0, whereas \<^verbatim>\<open>delete\<close> writes the
  error to the error stream and the program exits with status 1.
\<close>

theorem Show_and_Delete_not_found:
  assumes "Load (NewSnippetManager home) fs = Inr sm"
    and "map_of (entries (Snippets sm)) name = None"
    and "2 < length args" and "args ! 2 = name"
  shows "(args ! 1 = ''show'' \<longrightarrow>
            main args home inp fs
              = \<lparr>stdout = ''Snippet '' @ quoted name @ '' not found.'' @ [CHR 0x0A],
                 stderr = [], exit_code = 0, files = fs\<rparr>)
       \<and> (args ! 1 = ''delete'' \<longrightarrow>
            main args home inp fs
              = \<lparr>stdout = [],
                 stderr = ''Error deleting snippet: Snippet '' @ quoted name @ '' not found''
                          @ [CHR 0x0A],
                 exit_code = 1, files = fs\<rparr>)"
  using assms by (simp add: main_def Show_def Delete_def)

theorem Show_and_Delete_not_found_witness:
  "Load (NewSnippetManager ''/home/u'') (\<lambda>_. Missing)
     = Inr (NewSnippetManager ''/home/u'')
   \<and> map_of (entries (Snippets (NewSnippetManager ''/home/u''))) ''x'' = None
   \<and> main [''snippetmanager'', ''show'', ''x''] ''/home/u'' \<lparr>tokens = [], failed = False\<rparr>
        (\<lambda>_. Missing)
       = \<lparr>stdout = ''Snippet '' @ quoted ''x'' @ '' not found.'' @ [CHR 0x0A],
          stderr = [], exit_code = 0, files = \<lambda>_. Missing\<rparr>
   \<and> main [''snippetmanager'', ''delete'', ''x''] ''/home/u'' \<lparr>tokens = [], failed = False\<rparr>
        (\<lambda>_. Missing)
       = \<lparr>stdout = [],
          stderr = ''Error deleting snippet: Snippet '' @ quoted ''x'' @ '' not found''
                   @ [CHR 0x0A],
          exit_code = 1, files = \<lambda>_. Missing\<rparr>"
proof -
  have l: "Load (NewSnippetManager ''/home/u'') (\<lambda>_. Missing)
             = Inr (NewSnippetManager ''/home/u'')"
    by (simp add: Load_def ReadFile_def IsNotExist_def NewSnippetManager_def)
  have n: "map_of (entries (Snippets (NewSnippetManager ''/home/u''))) ''x'' = None"
    by (simp add: NewSnippetManager_def entries_def)
  show ?thesis
    using l n
      Show_and_Delete_not_found [OF l n, of "[''snippetmanager'', ''show'', ''x'']"
        "\<lparr>tokens = [], failed = False\<rparr>"]
      Show_and_Delete_not_found [OF l n, of "[''snippetmanager'', ''delete'', ''x'']"
        "\<lparr>tokens = [], failed = False\<rparr>"]
    by simp
qed

text \<open>
  Claim C8 says that every invocation with a missing name or an unknown command prints
  the usage text and exits with a status other than zero. The usage text is not what
  every such invocation prints: \<^verbatim>\<open>add\<close> without a name prints a one-line request for the
  name, and an unknown command given while the snippets file cannot be read prints
  nothing on standard output, since loading comes first.
\<close>

theorem missing_name_counterexample:
  "stdout (main [''snippetmanager'', ''add''] ''/home/u'' \<lparr>tokens = [], failed = False\<rparr>
             (\<lambda>_. Missing))
     = ''Please provide snippet name.'' @ [CHR 0x0A]
   \<and> stdout (main [''snippetmanager'', ''add''] ''/home/u'' \<lparr>tokens = [], failed = False\<rparr>
               (\<lambda>_. Missing)) \<noteq> printUsage
   \<and> stdout (main [''snippetmanager'', ''frobnicate''] ''/home/u''
               \<lparr>tokens = [], failed = False\<rparr> (\<lambda>_. Unreadable)) = []
   \<and> stdout (main [''snippetmanager'', ''frobnicate''] ''/home/u''
               \<lparr>tokens = [], failed = False\<rparr> (\<lambda>_. Unreadable)) \<noteq> printUsage"
  by (simp add: main_def Load_def ReadFile_def IsNotExist_def NewSnippetManager_def
        Println_def printUsage_def)

text \<open>
  Claim C8, amended. An invocation with no command or with an unknown command exits
  with status 1, and when the snippets file loads it prints the usage text on standard
  output and nothing else; \<^verbatim>\<open>add\<close>, \<^verbatim>\<open>show\<close> and \<^verbatim>\<open>delete\<close> without a name exit with status 1.
\<close>

theorem usage_errors:
  "(length args < 2
      \<or> (args ! 1 \<noteq> ''list'' \<and> args ! 1 \<noteq> ''add'' \<and> args ! 1 \<noteq> ''show''
          \<and> args ! 1 \<noteq> ''delete'') \<longrightarrow>
      exit_code (main args home inp fs) = 1
      \<and> (\<forall>sm. Load (NewSnippetManager home) fs = Inr sm \<longrightarrow>
             main args home inp fs
               = \<lparr>stdout = printUsage, stderr = [], exit_code = 1, files = fs\<rparr>))
   \<and> (length args = 2
        \<and> (args ! 1 = ''add'' \<or> args ! 1 = ''show'' \<or> args ! 1 = ''delete'') \<longrightarrow>
          exit_code (main args home inp fs) = 1)"
  by (auto simp: main_def split: sum.splits)

theorem usage_errors_witness:
  "Load (NewSnippetManager ''/home/u'') (\<lambda>_. Missing) = Inr (NewSnippetManager ''/home/u'')
   \<and> main [''snippetmanager'', ''frobnicate''] ''/home/u'' \<lparr>tokens = [], failed = False\<rparr>
        (\<lambda>_. Missing)
       = \<lparr>stdout = printUsage, stderr = [], exit_code = 1, files = \<lambda>_. Missing\<rparr>
   \<and> exit_code (main [''snippetmanager'', ''delete''] ''/home/u''
                   \<lparr>tokens = [], failed = False\<rparr> (\<lambda>_. Missing)) = 1"
proof -
  have l: "Load (NewSnippetManager ''/home/u'') (\<lambda>_. Missing)
             = Inr (NewSnippetManager ''/home/u'')"
    by (simp add: Load_def ReadFile_def IsNotExist_def NewSnippetManager_def)
  show ?thesis
    using l
      usage_errors [of "[''snippetmanager'', ''frobnicate'']" "''/home/u''"
        "\<lparr>tokens = [], failed = False\<rparr>" "\<lambda>_. Missing"]
      usage_errors [of "[''snippetmanager'', ''delete'']" "''/home/u''"
        "\<lparr>tokens = [], failed = False\<rparr>" "\<lambda>_. Missing"]
    by simp
qed

subsection \<open>UTF-8: encoding what was decoded\<close>

text \<open>
  The value of a well-formed encoding, written in base 64, has the payload bits of its
  bytes as digits; \<open>EncodeRune\<close> turns it back into those bytes.
\<close>

lemma digits2:
  fixes A B :: nat
  assumes "B < 64"
  shows "(A * 64 + B) mod 64 = B" and "(A * 64 + B) div 64 = A"
  using assms by simp_all

lemma digits3:
  fixes A B C :: nat
  assumes "B < 64" "C < 64"
  shows "(A * 4096 + B * 64 + C) mod 64 = C"
    and "(A * 4096 + B * 64 + C) div 64 mod 64 = B"
    and "(A * 4096 + B * 64 + C) div 4096 = A"
proof -
  have e: "A * 4096 + B * 64 + C = (A * 64 + B) * 64 + C" by simp
  show "(A * 4096 + B * 64 + C) mod 64 = C"
    unfolding e using assms(2) by (rule digits2(1))
  have d: "(A * 4096 + B * 64 + C) div 64 = A * 64 + B"
    unfolding e using assms(2) by (rule digits2(2))
  show "(A * 4096 + B * 64 + C) div 64 mod 64 = B"
    unfolding d using assms(1) by (rule digits2(1))
  have "(A * 4096 + B * 64 + C) div 4096 = (A * 4096 + B * 64 + C) div 64 div 64"
    by (simp add: div_mult2_eq)
  also have "\<dots> = A"
    unfolding d using assms(1) by (rule digits2(2))
  finally show "(A * 4096 + B * 64 + C) div 4096 = A" .
qed

lemma digits4:
  fixes A B C D :: nat
  assumes "B < 64" "C < 64" "D < 64"
  shows "(A * 262144 + B * 4096 + C * 64 + D) mod 64 = D"
    and "(A * 262144 + B * 4096 + C * 64 + D) div 64 mod 64 = C"
    and "(A * 262144 + B * 4096 + C * 64 + D) div 4096 mod 64 = B"
    and "(A * 262144 + B * 4096 + C * 64 + D) div 262144 = A"
proof -
  have e: "A * 262144 + B * 4096 + C * 64 + D = (A * 4096 + B * 64 + C) * 64 + D" by simp
  show "(A * 262144 + B * 4096 + C * 64 + D) mod 64 = D"
    unfolding e using assms(3) by (rule digits2(1))
  have d: "(A * 262144 + B * 4096 + C * 64 + D) div 64 = A * 4096 + B * 64 + C"
    unfolding e using assms(3) by (rule digits2(2))
  show "(A * 262144 + B * 4096 + C * 64 + D) div 64 mod 64 = C"
    unfolding d using assms(1,2) by (rule digits3(1))
  have "(A * 262144 + B * 4096 + C * 64 + D) div 4096
          = (A * 262144 + B * 4096 + C * 64 + D) div 64 div 64"
    by (simp add: div_mult2_eq)
  then show "(A * 262144 + B * 4096 + C * 64 + D) div 4096 mod 64 = B"
    unfolding d using digits3(2) [OF assms(1,2), of A] by simp
  have "(A * 262144 + B * 4096 + C * 64 + D) div 262144
          = (A * 262144 + B * 4096 + C * 64 + D) div 64 div 4096"
    by (simp add: div_mult2_eq)
  then show "(A * 262144 + B * 4096 + C * 64 + D) div 262144 = A"
    unfolding d using digits3(3) [OF assms(1,2), of A] by simp
qed

lemma mod_offset:
  fixes A :: nat
  assumes "A < n"
  shows "(k * n + A) mod n = A"
  using assms by simp

lemma range3:
  fixes A B C :: nat
  assumes "A < 16" "B < 64" "C < 64" "A = 0 \<longrightarrow> 32 \<le> B" "A = 13 \<longrightarrow> B < 32"
  shows "\<not> A * 4096 + B * 64 + C \<le> 0x7FF" and "A * 4096 + B * 64 + C \<le> 0xFFFF"
    and "\<not> (0xD800 \<le> A * 4096 + B * 64 + C \<and> A * 4096 + B * 64 + C \<le> 0xDFFF)"
proof -
  show "\<not> A * 4096 + B * 64 + C \<le> 0x7FF"
  proof (cases "A = 0")
    case True
    with assms(4) have "32 \<le> B" by simp
    then show ?thesis by simp
  next
    case False
    then have "1 \<le> A" by simp
    then show ?thesis by simp
  qed
  have "A \<le> 15" "B \<le> 63" "C \<le> 63" using assms(1-3) by simp_all
  then show "A * 4096 + B * 64 + C \<le> 0xFFFF" by simp
  consider "A \<le> 12" | "A = 13" | "14 \<le> A" by linarith
  then show "\<not> (0xD800 \<le> A * 4096 + B * 64 + C \<and> A * 4096 + B * 64 + C \<le> 0xDFFF)"
  proof cases
    case 1
    with \<open>B \<le> 63\<close> \<open>C \<le> 63\<close> show ?thesis by simp
  next
    case 2
    with assms(5) have "B \<le> 31" by simp
    with 2 \<open>C \<le> 63\<close> show ?thesis by simp
  next
    case 3
    then show ?thesis by simp
  qed
qed

lemma range4:
  fixes A B C D :: nat
  assumes "A < 5" "B < 64" "C < 64" "D < 64" "A = 0 \<longrightarrow> 16 \<le> B" "A = 4 \<longrightarrow> B < 16"
  shows "\<not> A * 262144 + B * 4096 + C * 64 + D \<le> 0xFFFF"
    and "A * 262144 + B * 4096 + C * 64 + D \<le> 0x10FFFF"
proof -
  show "\<not> A * 262144 + B * 4096 + C * 64 + D \<le> 0xFFFF"
  proof (cases "A = 0")
    case True
    with assms(5) have "16 \<le> B" by simp
    then show ?thesis by simp
  next
    case False
    then have "1 \<le> A" by simp
    then show ?thesis by simp
  qed
  show "A * 262144 + B * 4096 + C * 64 + D \<le> 0x10FFFF"
  proof (cases "A = 4")
    case True
    with assms(6) have "B \<le> 15" by simp
    with True assms(3,4) show ?thesis by simp
  next
    case False
    with assms(1) have "A \<le> 3" by simp
    with assms(2-4) show ?thesis by simp
  qed
qed

lemma EncodeRune_2:
  fixes a b :: nat
  assumes "0xC2 \<le> a" "a < 0xE0" "0x80 \<le> b" "b \<le> 0xBF"
  shows "EncodeRune ((a mod 32) * 64 + b mod 64) = [char_of a, char_of b]"
proof -
  define A B where "A = a - 0xC0" and "B = b - 0x80"
  have ab: "a = 0xC0 + A" "b = 0x80 + B" and bd: "A < 32" "B < 64" "2 \<le> A"
    using assms by (simp_all add: A_def B_def)
  have "(0xC0 + A) mod 32 = A" using mod_offset [OF bd(1), of 6] by simp
  moreover have "(0x80 + B) mod 64 = B" using mod_offset [OF bd(2), of 2] by simp
  ultimately have m: "a mod 32 = A" "b mod 64 = B" unfolding ab by simp_all
  define r where "r = A * 64 + B"
  have d: "r mod 64 = B" "r div 64 = A"
    unfolding r_def using bd(2) by (rule digits2)+
  have "\<not> r \<le> 0x7F" "r \<le> 0x7FF"
    unfolding r_def using bd by simp_all
  then have "EncodeRune r = [char_of a, char_of b]"
    unfolding EncodeRune_def d ab by simp
  then show ?thesis unfolding m r_def .
qed

lemma EncodeRune_3:
  fixes a b c :: nat
  assumes "0xE0 \<le> a" "a < 0xF0" "0x80 \<le> b" "b \<le> 0xBF" "0x80 \<le> c" "c \<le> 0xBF"
    and "a = 0xE0 \<longrightarrow> 0xA0 \<le> b" and "a = 0xED \<longrightarrow> b \<le> 0x9F"
  shows "EncodeRune ((a mod 16) * 4096 + (b mod 64) * 64 + c mod 64)
           = [char_of a, char_of b, char_of c]"
proof -
  define A B C where "A = a - 0xE0" and "B = b - 0x80" and "C = c - 0x80"
  have ab: "a = 0xE0 + A" "b = 0x80 + B" "c = 0x80 + C"
    and bd: "A < 16" "B < 64" "C < 64"
    using assms(1-6) by (simp_all add: A_def B_def C_def)
  have bd': "A = 0 \<longrightarrow> 32 \<le> B" "A = 13 \<longrightarrow> B < 32"
    using assms(7,8) unfolding ab by auto
  have "(0xE0 + A) mod 16 = A" using mod_offset [OF bd(1), of 14] by simp
  moreover have "(0x80 + B) mod 64 = B" using mod_offset [OF bd(2), of 2] by simp
  moreover have "(0x80 + C) mod 64 = C" using mod_offset [OF bd(3), of 2] by simp
  ultimately have m: "a mod 16 = A" "b mod 64 = B" "c mod 64 = C" unfolding ab by simp_all
  define r where "r = A * 4096 + B * 64 + C"
  have d: "r mod 64 = C" "r div 64 mod 64 = B" "r div 4096 = A"
    unfolding r_def using bd(2,3) by (rule digits3)+
  have rg: "\<not> r \<le> 0x7FF" "r \<le> 0xFFFF" "\<not> (0xD800 \<le> r \<and> r \<le> 0xDFFF)"
    unfolding r_def using bd bd' by (rule range3)+
  then have "\<not> r \<le> 0x7F" "\<not> 0x10FFFF < r" by simp_all
  with rg have "EncodeRune r = [char_of a, char_of b, char_of c]"
    unfolding EncodeRune_def d ab by auto
  then show ?thesis unfolding m r_def .
qed

lemma EncodeRune_4:
  fixes a b c d :: nat
  assumes "0xF0 \<le> a" "a \<le> 0xF4" "0x80 \<le> b" "b \<le> 0xBF" "0x80 \<le> c" "c \<le> 0xBF"
    "0x80 \<le> d" "d \<le> 0xBF"
    and "a = 0xF0 \<longrightarrow> 0x90 \<le> b" and "a = 0xF4 \<longrightarrow> b \<le> 0x8F"
  shows "EncodeRune ((a mod 8) * 262144 + (b mod 64) * 4096 + (c mod 64) * 64 + d mod 64)
           = [char_of a, char_of b, char_of c, char_of d]"
proof -
  define A B C D where "A = a - 0xF0" and "B = b - 0x80" and "C = c - 0x80" and "D = d - 0x80"
  have ab: "a = 0xF0 + A" "b = 0x80 + B" "c = 0x80 + C" "d = 0x80 + D"
    and bd: "A < 5" "B < 64" "C < 64" "D < 64"
    using assms(1-8) by (simp_all add: A_def B_def C_def D_def)
  have bd': "A = 0 \<longrightarrow> 16 \<le> B" "A = 4 \<longrightarrow> B < 16"
    using assms(9,10) unfolding ab by auto
  have "(0xF0 + A) mod 8 = A" using mod_offset [of A 8 30] bd(1) by simp
  moreover have "(0x80 + B) mod 64 = B" using mod_offset [OF bd(2), of 2] by simp
  moreover have "(0x80 + C) mod 64 = C" using mod_offset [OF bd(3), of 2] by simp
  moreover have "(0x80 + D) mod 64 = D" using mod_offset [OF bd(4), of 2] by simp
  ultimately have m: "a mod 8 = A" "b mod 64 = B" "c mod 64 = C" "d mod 64 = D"
    unfolding ab by simp_all
  define r where "r = A * 262144 + B * 4096 + C * 64 + D"
  have e: "r mod 64 = D" "r div 64 mod 64 = C" "r div 4096 mod 64 = B" "r div 262144 = A"
    unfolding r_def using bd(2,3,4) by (rule digits4)+
  have rg: "\<not> r \<le> 0xFFFF" "r \<le> 0x10FFFF"
    unfolding r_def using bd bd' by (rule range4)+
  then have "\<not> r \<le> 0x7F" "\<not> r \<le> 0x7FF" "\<not> 0x10FFFF < r"
    "\<not> (0xD800 \<le> r \<and> r \<le> 0xDFFF)" by simp_all
  with rg have "EncodeRune r = [char_of a, char_of b, char_of c, char_of d]"
    unfolding EncodeRune_def e ab by auto
  then show ?thesis unfolding m r_def .
qed

lemma DecodeRune_form:
  assumes "DecodeRuneInString (c # s) = (r, n)" and "\<not> (r = RuneError \<and> n = 1)"
    and "0x80 \<le> (of_char c :: nat)"
  shows "(\<exists>c1 t. s = c1 # t \<and> n = 2 \<and> 0xC2 \<le> (of_char c :: nat) \<and> (of_char c :: nat) < 0xE0
            \<and> 0x80 \<le> (of_char c1 :: nat) \<and> (of_char c1 :: nat) \<le> 0xBF
            \<and> r = (of_char c mod 32) * 64 + of_char c1 mod 64)
       \<or> (\<exists>c1 c2 t. s = c1 # c2 # t \<and> n = 3
            \<and> 0xE0 \<le> (of_char c :: nat) \<and> (of_char c :: nat) < 0xF0
            \<and> 0x80 \<le> (of_char c1 :: nat) \<and> (of_char c1 :: nat) \<le> 0xBF
            \<and> 0x80 \<le> (of_char c2 :: nat) \<and> (of_char c2 :: nat) \<le> 0xBF
            \<and> ((of_char c :: nat) = 0xE0 \<longrightarrow> 0xA0 \<le> (of_char c1 :: nat))
            \<and> ((of_char c :: nat) = 0xED \<longrightarrow> (of_char c1 :: nat) \<le> 0x9F)
            \<and> r = (of_char c mod 16) * 4096 + (of_char c1 mod 64) * 64 + of_char c2 mod 64)
       \<or> (\<exists>c1 c2 c3 t. s = c1 # c2 # c3 # t \<and> n = 4
            \<and> 0xF0 \<le> (of_char c :: nat) \<and> (of_char c :: nat) \<le> 0xF4
            \<and> 0x80 \<le> (of_char c1 :: nat) \<and> (of_char c1 :: nat) \<le> 0xBF
            \<and> 0x80 \<le> (of_char c2 :: nat) \<and> (of_char c2 :: nat) \<le> 0xBF
            \<and> 0x80 \<le> (of_char c3 :: nat) \<and> (of_char c3 :: nat) \<le> 0xBF
            \<and> ((of_char c :: nat) = 0xF0 \<longrightarrow> 0x90 \<le> (of_char c1 :: nat))
            \<and> ((of_char c :: nat) = 0xF4 \<longrightarrow> (of_char c1 :: nat) \<le> 0x8F)
            \<and> r = (of_char c mod 8) * 262144 + (of_char c1 mod 64) * 4096
                    + (of_char c2 mod 64) * 64 + of_char c3 mod 64)"
  using assms unfolding DecodeRuneInString_def Let_def first_size_def accept_lo_def accept_hi_def
  by (auto split: list.splits if_splits)

lemma DecodeRune_valid:
  assumes "DecodeRuneInString (c # s) = (r, n)" and "\<not> (r = RuneError \<and> n = 1)"
    and "0x80 \<le> (of_char c :: nat)"
  shows "n - 1 \<le> length s" and "EncodeRune r = c # take (n - 1) s"
    and "DecodeRuneInString (c # take (n - 1) s @ Y) = (r, n)"
proof -
  let ?a = "of_char c :: nat"
  consider
    (two) c1 t where "s = c1 # t" "n = 2" "0xC2 \<le> ?a" "?a < 0xE0"
      "0x80 \<le> (of_char c1 :: nat)" "(of_char c1 :: nat) \<le> 0xBF"
      "r = (?a mod 32) * 64 + of_char c1 mod 64"
  | (three) c1 c2 t where "s = c1 # c2 # t" "n = 3" "0xE0 \<le> ?a" "?a < 0xF0"
      "0x80 \<le> (of_char c1 :: nat)" "(of_char c1 :: nat) \<le> 0xBF"
      "0x80 \<le> (of_char c2 :: nat)" "(of_char c2 :: nat) \<le> 0xBF"
      "?a = 0xE0 \<longrightarrow> 0xA0 \<le> (of_char c1 :: nat)"
      "?a = 0xED \<longrightarrow> (of_char c1 :: nat) \<le> 0x9F"
      "r = (?a mod 16) * 4096 + (of_char c1 mod 64) * 64 + of_char c2 mod 64"
  | (four) c1 c2 c3 t where "s = c1 # c2 # c3 # t" "n = 4" "0xF0 \<le> ?a" "?a \<le> 0xF4"
      "0x80 \<le> (of_char c1 :: nat)" "(of_char c1 :: nat) \<le> 0xBF"
      "0x80 \<le> (of_char c2 :: nat)" "(of_char c2 :: nat) \<le> 0xBF"
      "0x80 \<le> (of_char c3 :: nat)" "(of_char c3 :: nat) \<le> 0xBF"
      "?a = 0xF0 \<longrightarrow> 0x90 \<le> (of_char c1 :: nat)"
      "?a = 0xF4 \<longrightarrow> (of_char c1 :: nat) \<le> 0x8F"
      "r = (?a mod 8) * 262144 + (of_char c1 mod 64) * 4096
             + (of_char c2 mod 64) * 64 + of_char c3 mod 64"
    using DecodeRune_form [OF assms] by blast
  then have "n - 1 \<le> length s \<and> EncodeRune r = c # take (n - 1) s
               \<and> DecodeRuneInString (c # take (n - 1) s @ Y) = (r, n)"
  proof cases
    case two
    have "EncodeRune r = [c, c1]"
      unfolding two(7) using EncodeRune_2 [OF two(3-6)] by simp
    moreover have "DecodeRuneInString (c # c1 # Y) = (r, 2)"
      unfolding DecodeRuneInString_def Let_def first_size_def accept_lo_def accept_hi_def
      using two(3-7) by simp
    ultimately show ?thesis using two(1,2) by simp
  next
    case three
    have "EncodeRune r = [c, c1, c2]"
      unfolding three(11) using EncodeRune_3 [OF three(3-10)] by simp
    moreover have "DecodeRuneInString (c # c1 # c2 # Y) = (r, 3)"
      unfolding DecodeRuneInString_def Let_def first_size_def accept_lo_def accept_hi_def
      using three(3-11) by auto
    ultimately show ?thesis using three(1,2) by simp
  next
    case four
    have "EncodeRune r = [c, c1, c2, c3]"
      unfolding four(13) using EncodeRune_4 [OF four(3-12)] by simp
    moreover have "DecodeRuneInString (c # c1 # c2 # c3 # Y) = (r, 4)"
      unfolding DecodeRuneInString_def Let_def first_size_def accept_lo_def accept_hi_def
      using four(3-13) by auto
    ultimately show ?thesis using four(1,2) by simp
  qed
  then show "n - 1 \<le> length s" and "EncodeRune r = c # take (n - 1) s"
    and "DecodeRuneInString (c # take (n - 1) s @ Y) = (r, n)"
    by simp_all
qed

lemma EncodeRune_RuneError: "EncodeRune RuneError = [CHR 0xEF, CHR 0xBF, CHR 0xBD]"
proof -
  have "char_of (of_char (CHR 0xEF) :: nat) = CHR 0xEF"
    "char_of (of_char (CHR 0xBF) :: nat) = CHR 0xBF"
    "char_of (of_char (CHR 0xBD) :: nat) = CHR 0xBD"
    by (rule char_of_char)+
  then show ?thesis
    by (simp add: EncodeRune_def RuneError_def)
qed

subsection \<open>JSON strings: reading what was written\<close>

lemma hex_value_hex:
  assumes "k < 16"
  shows "hex_value (hex k) = Some k"
proof -
  have "k \<in> {0, 1, 2, 3, 4, 5, 6, 7, 8, 9, 10, 11, 12, 13, 14, 15}"
    using assms by (simp; arith)
  then show ?thesis
    by (elim insertE emptyE) (simp_all add: hex_def hex_value_def)
qed

lemma getu4_escape:
  assumes "h1 < 16" "h2 < 16" "h3 < 16" "h4 < 16"
  shows "getu4 (CHR 0x5C # CHR ''u'' # hex h1 # hex h2 # hex h3 # hex h4 # X)
           = Some (((h1 * 16 + h2) * 16 + h3) * 16 + h4)"
  using assms by (simp add: getu4_def hex_value_hex)

lemma string_literal_u_escape:
  assumes "h1 < 16" "h2 < 16" "h3 < 16" "h4 < 16"
    and "\<not> IsSurrogate (((h1 * 16 + h2) * 16 + h3) * 16 + h4)"
  shows "string_literal (CHR 0x5C # CHR ''u'' # hex h1 # hex h2 # hex h3 # hex h4 # X)
           = emit (EncodeRune (((h1 * 16 + h2) * 16 + h3) * 16 + h4)) (string_literal X)"
  using assms(5) getu4_escape [OF assms(1-4), of X] by simp

lemma hex_digits:
  "CHR ''0'' = hex 0" "CHR ''2'' = hex 2" "CHR ''f'' = hex 15" "CHR ''d'' = hex 13"
  by (simp_all add: hex_def)

lemma string_literal_escape_byte:
  assumes "(of_char c :: nat) < 0x80"
  shows "string_literal (escape_byte c @ X) = emit [c] (string_literal X)"
proof -
  let ?b = "of_char c :: nat"
  consider "c = CHR 0x5C \<or> c = CHR 0x22" | "c = CHR 0x08" | "c = CHR 0x0C" | "c = CHR 0x0A"
    | "c = CHR 0x0D" | "c = CHR 0x09"
    | "c \<noteq> CHR 0x5C" "c \<noteq> CHR 0x22" "c \<noteq> CHR 0x08" "c \<noteq> CHR 0x0C" "c \<noteq> CHR 0x0A"
      "c \<noteq> CHR 0x0D" "c \<noteq> CHR 0x09"
    by blast
  then show ?thesis
  proof cases
    case 7
    have d: "?b div 16 < 16" "?b mod 16 < 16" using assms by simp_all
    have v: "((0 * 16 + 0) * 16 + ?b div 16) * 16 + ?b mod 16 = ?b" by simp
    have "\<not> IsSurrogate ?b" using assms by (simp add: IsSurrogate_def)
    then have "string_literal (CHR 0x5C # CHR ''u'' # hex 0 # hex 0 # hex (?b div 16)
                 # hex (?b mod 16) # X) = emit (EncodeRune ?b) (string_literal X)"
      using string_literal_u_escape [of 0 0 "?b div 16" "?b mod 16" X] d v by simp
    moreover have "EncodeRune ?b = [c]" using assms by (simp add: EncodeRune_def)
    ultimately show ?thesis using 7 by (simp add: escape_byte_def hex_digits)
  qed (auto simp: escape_byte_def)
qed

lemma string_literal_replacement:
  "string_literal (CHR 0x5C # ''ufffd'' @ X) = emit (EncodeRune RuneError) (string_literal X)"
proof -
  have "\<not> IsSurrogate RuneError" by (simp add: IsSurrogate_def RuneError_def)
  moreover have "((15 * 16 + 15) * 16 + 15) * 16 + 13 = RuneError"
    by (simp add: RuneError_def)
  ultimately show ?thesis
    using string_literal_u_escape [of 15 15 15 13 X] by (simp add: hex_digits)
qed

lemma string_literal_separator:
  assumes "r = 0x2028 \<or> r = 0x2029"
  shows "string_literal (CHR 0x5C # ''u202'' @ [hex (r mod 16)] @ X)
           = emit (EncodeRune r) (string_literal X)"
proof -
  have "\<not> IsSurrogate r" and "((2 * 16 + 0) * 16 + 2) * 16 + r mod 16 = r" and "r mod 16 < 16"
    using assms by (auto simp: IsSurrogate_def)
  then show ?thesis
    using string_literal_u_escape [of 2 0 2 "r mod 16" X] by (simp add: hex_digits)
qed

lemma string_literal_string_body:
  "string_literal (string_body s @ CHR 0x22 # rest) = Some (coerce_utf8 s, rest)"
proof (induction "length s" arbitrary: s rule: less_induct)
  case less
  show ?case
  proof (cases s)
    case Nil
    then show ?thesis by simp
  next
    case (Cons c t)
    have IH: "string_literal (string_body u @ CHR 0x22 # rest) = Some (coerce_utf8 u, rest)"
      if "length u \<le> length t" for u
      using less [of u] that Cons by simp
    show ?thesis
    proof (cases "(of_char c :: nat) < 0x80")
      case ascii: True
      show ?thesis
      proof (cases "htmlSafeSet (of_char c)")
        case True
        then have "c \<noteq> CHR 0x22" "c \<noteq> CHR 0x5C" "\<not> (of_char c :: nat) < 0x20"
          by (auto simp: htmlSafeSet_def)
        then show ?thesis
          using ascii True IH [of t] Cons by (simp add: emit_def)
      next
        case False
        then show ?thesis
          using ascii IH [of t] Cons string_literal_escape_byte [OF ascii]
          by (simp add: emit_def)
      qed
    next
      case high: False
      obtain r n where d: "DecodeRuneInString (c # t) = (r, n)"
        by (cases "DecodeRuneInString (c # t)") auto
      show ?thesis
      proof (cases "r = RuneError \<and> n = 1")
        case True
        then show ?thesis
          using high d IH [of t] Cons string_literal_replacement
          by (simp add: emit_def)
      next
        case False
        have h: "0x80 \<le> (of_char c :: nat)" using high by simp
        have cf: "(r = RuneError \<and> n = 1) = False" "(r = RuneError \<and> n = Suc 0) = False"
          using False by simp_all
        note v = DecodeRune_valid [OF d False h]
        have c5: "c \<noteq> CHR 0x22" "c \<noteq> CHR 0x5C" "\<not> (of_char c :: nat) < 0x20"
          using h by auto
        have step: "string_literal (string_body (drop (n - 1) t) @ CHR 0x22 # rest)
                      = Some (coerce_utf8 (drop (n - 1) t), rest)"
          by (rule IH) simp
        show ?thesis
        proof (cases "r = 0x2028 \<or> r = 0x2029")
          case True
          have "string_body s = CHR 0x5C # ''u202'' @ [hex (r mod 16)]
                  @ string_body (drop (n - 1) t)"
            using high True by (simp add: Cons d cf)
          moreover have "coerce_utf8 s = EncodeRune r @ coerce_utf8 (drop (n - 1) t)"
            using high v(2) by (simp add: Cons d cf)
          ultimately show ?thesis
            using string_literal_separator [OF True] step by (simp add: emit_def)
        next
          case other: False
          have b: "string_body s = c # take (n - 1) t @ string_body (drop (n - 1) t)"
            using high other by (simp add: Cons d cf)
          have "string_literal (c # take (n - 1) t @ string_body (drop (n - 1) t) @ CHR 0x22 # rest)
                  = emit (EncodeRune r)
                      (string_literal (string_body (drop (n - 1) t) @ CHR 0x22 # rest))"
            using c5 high v(1) v(3) [of "string_body (drop (n - 1) t) @ CHR 0x22 # rest"]
            by simp
          moreover have "coerce_utf8 s = EncodeRune r @ coerce_utf8 (drop (n - 1) t)"
            using high v(2) by (simp add: Cons d cf)
          ultimately show ?thesis
            using b step by (simp add: emit_def)
        qed
      qed
    qed
  qed
qed

lemma coerce_utf8_valid: "ValidString s \<Longrightarrow> coerce_utf8 s = s"
proof (induction s rule: ValidString.induct)
  case 1
  show ?case by simp
next
  case (2 c s)
  obtain r n where d: "DecodeRuneInString (c # s) = (r, n)"
    by (cases "DecodeRuneInString (c # s)") auto
  show ?case
  proof (cases "(of_char c :: nat) < 0x80")
    case True
    then have "DecodeRuneInString (c # s) = (of_char c, 1)"
      by (simp add: DecodeRuneInString_def)
    with 2 True show ?thesis by simp
  next
    case False
    with 2 d show ?thesis by auto
  qed
qed

lemma coerce_utf8_Nil: "coerce_utf8 s = [] \<longleftrightarrow> s = []"
  by (cases s) (auto simp: EncodeRune_def RuneError_def split: prod.splits)

subsection \<open>JSON objects: reading what was written\<close>

lemma skip_space_Cons:
  "skip_space (c # s) = (if isSpace c then skip_space s else c # s)"
  by (simp add: skip_space_def)

lemma isSpace_simps:
  "isSpace (CHR '' '')" "isSpace (CHR 0x0A)" "\<not> isSpace (CHR 0x22)" "\<not> isSpace (CHR '':'')"
  "\<not> isSpace (CHR '','')" "\<not> isSpace (CHR ''}'')" "\<not> isSpace (CHR ''{'')"
  by (simp_all add: isSpace_def)

lemma members_object_member:
  "members (skip_space (object_member e @ Y))
     = (case skip_space Y of
          [] \<Rightarrow> None
        | c5 # s5 \<Rightarrow>
            if c5 = CHR '','' then
              (case members (skip_space s5) of
                 None \<Rightarrow> None
               | Some (es, rest) \<Rightarrow> Some (coerce_entry e # es, rest))
            else if c5 = CHR ''}'' then Some ([coerce_entry e], s5)
            else None)"
proof -
  obtain k v where e: "e = (k, v)" by (cases e)
  have 1: "skip_space (object_member e @ Y)
             = CHR 0x22 # string_body k
                 @ CHR 0x22 # CHR '':'' # CHR '' '' # CHR 0x22 # string_body v @ CHR 0x22 # Y"
    by (simp add: e object_member_def appendString_def skip_space_Cons isSpace_simps)
  have 2: "string_literal (string_body k
                 @ CHR 0x22 # CHR '':'' # CHR '' '' # CHR 0x22 # string_body v @ CHR 0x22 # Y)
             = Some (coerce_utf8 k, CHR '':'' # CHR '' '' # CHR 0x22 # string_body v @ CHR 0x22 # Y)"
    by (rule string_literal_string_body)
  have 3: "member_value (CHR 0x22 # string_body v @ CHR 0x22 # Y) = Some (coerce_utf8 v, Y)"
    by (simp add: member_value_def string_literal_string_body)
  show ?thesis
    unfolding 1
    by (simp add: 2 3 skip_space_Cons isSpace_simps e coerce_entry_def
          split: list.splits option.splits)
qed

lemma members_object_members:
  "es \<noteq> [] \<Longrightarrow>
     members (skip_space (object_members es @ CHR ''}'' # rest)) = Some (map coerce_entry es, rest)"
proof (induction es rule: object_members.induct)
  case 1
  then show ?case by simp
next
  case (2 e)
  show ?case
    by (simp add: members_object_member skip_space_Cons isSpace_simps)
next
  case (3 e e' es)
  then show ?case
    by (simp add: members_object_member skip_space_Cons isSpace_simps)
qed

lemma Unmarshal_MarshalIndent:
  "Unmarshal (MarshalIndent (Some t)) m
     = Inr (Some (store_members (map coerce_entry (sort_key fst t)) (entries m)))"
proof (cases "t = []")
  case True
  then show ?thesis
    by (simp add: Unmarshal_def MarshalIndent_def object_def skip_space_Cons isSpace_simps
          store_members_def skip_space_def)
next
  case False
  then have ne: "sort_key fst t \<noteq> []"
    by (metis length_0_conv length_sort)
  have "object (CHR 0x0A # object_members (sort_key fst t) @ ''}'')
          = Some (map coerce_entry (sort_key fst t), [])"
  proof -
    have "skip_space (CHR 0x0A # object_members (sort_key fst t) @ ''}'')
            = skip_space (object_members (sort_key fst t) @ CHR ''}'' # [])"
      by (simp add: skip_space_Cons isSpace_simps)
    moreover obtain c s' where "skip_space (object_members (sort_key fst t) @ CHR ''}'' # [])
                                  = c # s'" "c \<noteq> CHR ''}''"
      using members_object_members [OF ne, of "[]"]
      by (cases "skip_space (object_members (sort_key fst t) @ CHR ''}'' # [])")
         (auto split: if_splits)
    ultimately show ?thesis
      using members_object_members [OF ne, of "[]"] by (simp add: object_def)
  qed
  then show ?thesis
    using False
    by (simp add: Unmarshal_def MarshalIndent_def skip_space_Cons isSpace_simps skip_space_def)
qed

lemma map_of_store_members:
  "map_of (store_members es t0) = map_of t0 ++ map_of (rev es)"
proof (induction es arbitrary: t0)
  case Nil
  show ?case by (simp add: store_members_def)
next
  case (Cons e es)
  have "store_members (e # es) t0 = store_members es (AList.update (fst e) (snd e) t0)"
    by (simp add: store_members_def)
  then show ?case
    by (cases e) (simp add: Cons update_conv' map_add_def fun_eq_iff split: option.splits)
qed

lemma wf_table_store_members: "wf_table t0 \<Longrightarrow> wf_table (store_members es t0)"
proof (induction es arbitrary: t0)
  case Nil
  then show ?case by (simp add: store_members_def)
next
  case (Cons e es)
  have "store_members (e # es) t0 = store_members es (AList.update (fst e) (snd e) t0)"
    by (simp add: store_members_def)
  with Cons show ?case by (simp add: wf_table_update)
qed

lemma keys_store_members:
  "fst ` set (store_members es t0) = fst ` set es \<union> fst ` set t0"
proof (induction es arbitrary: t0)
  case Nil
  show ?case by (simp add: store_members_def)
next
  case (Cons e es)
  have "store_members (e # es) t0 = store_members es (AList.update (fst e) (snd e) t0)"
    by (simp add: store_members_def)
  then show ?case by (auto simp: Cons dom_update)
qed

lemma map_of_sort_key:
  assumes "wf_table t"
  shows "map_of (rev (sort_key fst t)) = map_of t"
proof -
  have d: "distinct (map fst t)" using assms by (simp add: wf_table_def)
  then have "distinct t" by (rule distinct_map [THEN iffD1, THEN conjunct1])
  have "inj_on fst (set t)" using d by (simp add: distinct_map)
  then have "distinct (map fst (rev (sort_key fst t)))"
    using \<open>distinct t\<close> by (simp add: distinct_map)
  moreover have "set (rev (sort_key fst t)) = set t" by simp
  ultimately show ?thesis
    using d by (simp add: map_of_inject_set)
qed

lemma Load_after_Save:
  assumes "Save sm fs = (None, fs')" and "Snippets sm = Some t" and "Filepath sm0 = Filepath sm"
  shows "Load sm0 fs'
           = Inr (sm0\<lparr>Snippets :=
                    Some (store_members (map coerce_entry (sort_key fst t))
                            (entries (Snippets sm0)))\<rparr>)"
proof -
  have "fs' (Filepath sm) = Data (MarshalIndent (Some t))"
    using assms(1,2) by (auto simp: Save_def WriteFile_def split: node.splits)
  then show ?thesis
    using assms(3) by (simp add: Load_def ReadFile_def Unmarshal_MarshalIndent)
qed

lemma coerce_valid_table:
  assumes "valid_table t"
  shows "map coerce_entry (sort_key fst t) = sort_key fst t"
proof -
  have "coerce_entry e = e" if "e \<in> set t" for e
    using assms that by (cases e) (auto simp: valid_table_def coerce_entry_def coerce_utf8_valid)
  then show ?thesis by (intro map_idI) simp
qed

subsection \<open>JSON objects: what the decoder accepts\<close>

text \<open>
  \<open>Unmarshal\<close> returns without an error exactly on the texts that the grammar calls an
  object whose values are strings or \<^verbatim>\<open>null\<close>, and on the literal \<^verbatim>\<open>null\<close>. Strings first:
  \<open>string_literal\<close> reads exactly the strings of the grammar, up to their closing
  quotation mark.
\<close>

lemma hex_value_is_hex: "(hex_value c \<noteq> None) = is_hex c"
  by (auto simp: hex_value_def is_hex_def Let_def)

lemma getu4_Some:
  "(\<exists>r. getu4 s = Some r)
     = (\<exists>h1 h2 h3 h4 t. s = CHR 0x5C # CHR ''u'' # h1 # h2 # h3 # h4 # t
          \<and> is_hex h1 \<and> is_hex h2 \<and> is_hex h3 \<and> is_hex h4)"
proof
  assume "\<exists>r. getu4 s = Some r"
  then obtain r where r: "getu4 s = Some r" ..
  then have l: "6 \<le> length s" "s ! 0 = CHR 0x5C" "s ! 1 = CHR ''u''"
    by (auto simp: getu4_def split: if_splits)
  then obtain a b h1 h2 h3 h4 t where s: "s = a # b # h1 # h2 # h3 # h4 # t"
    by (cases s; simp; (rename_tac s', case_tac s'; simp)+)
  with l have ab: "a = CHR 0x5C" "b = CHR ''u''" by simp_all
  have "is_hex h1 \<and> is_hex h2 \<and> is_hex h3 \<and> is_hex h4"
    using r unfolding s ab hex_value_is_hex [symmetric]
    by (auto simp: getu4_def split: option.splits)
  with s ab show "\<exists>h1 h2 h3 h4 t. s = CHR 0x5C # CHR ''u'' # h1 # h2 # h3 # h4 # t
          \<and> is_hex h1 \<and> is_hex h2 \<and> is_hex h3 \<and> is_hex h4"
    by blast
next
  assume "\<exists>h1 h2 h3 h4 t. s = CHR 0x5C # CHR ''u'' # h1 # h2 # h3 # h4 # t
          \<and> is_hex h1 \<and> is_hex h2 \<and> is_hex h3 \<and> is_hex h4"
  then obtain h1 h2 h3 h4 t where s: "s = CHR 0x5C # CHR ''u'' # h1 # h2 # h3 # h4 # t"
    and h: "hex_value h1 \<noteq> None" "hex_value h2 \<noteq> None" "hex_value h3 \<noteq> None"
      "hex_value h4 \<noteq> None"
    unfolding hex_value_is_hex by blast
  then show "\<exists>r. getu4 s = Some r"
    by (auto simp: getu4_def)
qed

lemma emit_SomeD: "emit bs r = Some (t, rest) \<Longrightarrow> \<exists>t'. r = Some (t', rest)"
  by (auto simp: emit_def split: option.splits)

lemma json_chars_high:
  "\<forall>x \<in> set hs. 0x80 \<le> (of_char x :: nat) \<Longrightarrow> json_chars cs \<Longrightarrow> json_chars (hs @ cs)"
proof (induction hs)
  case Nil
  then show ?case by simp
next
  case (Cons h hs)
  then have "0x80 \<le> (of_char h :: nat)" by simp
  then have "0x20 \<le> (of_char h :: nat)" "h \<noteq> CHR 0x22" "h \<noteq> CHR 0x5C" by auto
  with Cons show ?case by (simp add: json_chars.plain)
qed

lemma decode_consumes:
  assumes "0x80 \<le> (of_char c :: nat)" and "DecodeRuneInString (c # s) = (rr, n)"
  shows "n - 1 \<le> length s \<and> (\<forall>x \<in> set (take (n - 1) s). 0x80 \<le> (of_char x :: nat))"
proof (cases "rr = RuneError \<and> n = 1")
  case True
  then show ?thesis by simp
next
  case False
  from DecodeRune_form [OF assms(2) False assms(1)] show ?thesis
    by (elim disjE exE conjE) simp_all
qed

lemma string_literal_sound:
  "string_literal s = Some (t, rest) \<Longrightarrow> \<exists>cs. s = cs @ CHR 0x22 # rest \<and> json_chars cs"
proof (induction "length s" arbitrary: s t rule: less_induct)
  case less
  show ?case
  proof (cases s)
    case Nil
    with less.prems show ?thesis by simp
  next
    case (Cons c s0)
    have IH: "\<exists>cs. u = cs @ CHR 0x22 # rest \<and> json_chars cs"
      if "emit bs (string_literal u) = Some (t, rest)" "length u \<le> length s0" for u bs
      using emit_SomeD [OF that(1)] less.hyps [of u] that(2) Cons by auto
    consider (quote) "c = CHR 0x22"
      | (esc) "c = CHR 0x5C"
      | (ascii) "c \<noteq> CHR 0x22" "c \<noteq> CHR 0x5C" "(of_char c :: nat) < 0x80"
      | (high) "0x80 \<le> (of_char c :: nat)"
      by fastforce
    then show ?thesis
    proof cases
      case quote
      with less.prems Cons have "rest = s0" by simp
      with quote Cons show ?thesis by (intro exI [of _ "[]"]) (simp add: json_chars.empty)
    next
      case ascii
      with less.prems Cons have e: "emit [c] (string_literal s0) = Some (t, rest)"
        and "0x20 \<le> (of_char c :: nat)"
        by (auto split: if_splits)
      from IH [OF e] obtain cs where "s0 = cs @ CHR 0x22 # rest" "json_chars cs" by auto
      with ascii \<open>0x20 \<le> of_char c\<close> Cons show ?thesis
        by (intro exI [of _ "c # cs"]) (simp add: json_chars.plain)
    next
      case high
      obtain rr n where d: "DecodeRuneInString (c # s0) = (rr, n)"
        by (cases "DecodeRuneInString (c # s0)") auto
      from high have c: "c \<noteq> CHR 0x22" "c \<noteq> CHR 0x5C" "\<not> (of_char c :: nat) < 0x20"
        "\<not> (of_char c :: nat) < 0x80" by auto
      with less.prems Cons d
      have e: "emit (EncodeRune rr) (string_literal (drop (n - 1) s0)) = Some (t, rest)"
        by simp
      from IH [OF e] obtain cs where cs: "drop (n - 1) s0 = cs @ CHR 0x22 # rest" "json_chars cs"
        by auto
      from decode_consumes [OF high d]
      have "json_chars (c # take (n - 1) s0 @ cs)"
        using json_chars_high [of "c # take (n - 1) s0" cs] high cs(2) by simp
      moreover have "s = (c # take (n - 1) s0 @ cs) @ CHR 0x22 # rest"
        using cs(1) Cons append_take_drop_id [of "n - 1" s0] by simp
      ultimately show ?thesis by blast
    next
      case esc
      with less.prems Cons obtain e s1 where s0: "s0 = e # s1"
        by (cases s0) auto
      show ?thesis
      proof (cases "e = CHR ''u''")
        case False
        with less.prems Cons esc s0
        have "\<exists>bs. emit bs (string_literal s1) = Some (t, rest)"
          and e: "e \<in> set [CHR 0x22, CHR 0x5C, CHR ''/'', CHR ''b'', CHR ''f'', CHR ''n'',
                          CHR ''r'', CHR ''t'']"
          by (auto split: if_splits)
        then obtain bs where "emit bs (string_literal s1) = Some (t, rest)" by blast
        from IH [OF this] s0 obtain cs where "s1 = cs @ CHR 0x22 # rest" "json_chars cs"
          by auto
        with e esc Cons s0 show ?thesis
          by (intro exI [of _ "CHR 0x5C # e # cs"]) (simp add: json_chars.escape)
      next
        case True
        with less.prems Cons esc s0 obtain r1 where g: "getu4 (c # s0) = Some r1"
          by (auto split: option.splits)
        then obtain h1 h2 h3 h4 s2 where s2: "s1 = h1 # h2 # h3 # h4 # s2"
          and h: "is_hex h1" "is_hex h2" "is_hex h3" "is_hex h4"
          using getu4_Some [of "c # s0"] s0 by auto
        have d5: "drop 5 s0 = s2" using s0 s2 by simp
        show ?thesis
        proof (cases "IsSurrogate r1 \<and> utf16_DecodeRune r1 (getu4 s2) \<noteq> RuneError")
          case False
          with less.prems Cons esc s0 True g d5
          have "\<exists>bs. emit bs (string_literal s2) = Some (t, rest)"
            by (auto split: if_splits)
          then obtain bs where "emit bs (string_literal s2) = Some (t, rest)" by blast
          from IH [OF this] s0 s2 obtain cs where "s2 = cs @ CHR 0x22 # rest" "json_chars cs"
            by auto
          with h esc Cons s0 s2 True show ?thesis
            by (intro exI [of _ "CHR 0x5C # CHR ''u'' # h1 # h2 # h3 # h4 # cs"])
               (simp add: json_chars.unicode)
        next
          case pair: True
          then have "\<exists>r2. getu4 s2 = Some r2"
            by (cases "getu4 s2") (auto simp: utf16_DecodeRune_def)
          then obtain g1 g2 g3 g4 s3 where s3: "s2 = CHR 0x5C # CHR ''u'' # g1 # g2 # g3 # g4 # s3"
            and gh: "is_hex g1" "is_hex g2" "is_hex g3" "is_hex g4"
            using getu4_Some [of s2] by auto
          have d11: "drop 11 s0 = s3" using s0 s2 s3 by simp
          from less.prems Cons esc s0 True g d5 d11 pair
          have "\<exists>bs. emit bs (string_literal s3) = Some (t, rest)"
            by (auto split: if_splits)
          then obtain bs where "emit bs (string_literal s3) = Some (t, rest)" by blast
          from IH [OF this] s0 s2 s3 obtain cs where "s3 = cs @ CHR 0x22 # rest" "json_chars cs"
            by auto
          with h gh esc Cons s0 s2 s3 True show ?thesis
            by (intro exI [of _ "CHR 0x5C # CHR ''u'' # h1 # h2 # h3 # h4
                                   # CHR 0x5C # CHR ''u'' # g1 # g2 # g3 # g4 # cs"])
               (simp add: json_chars.unicode)
        qed
      qed
    qed
  qed
qed

lemma emit_Some_eq: "emit bs (Some (t, rest)) = Some (bs @ t, rest)"
  by (simp add: emit_def)

lemma is_hex_not_quote: "is_hex h \<Longrightarrow> h \<noteq> CHR 0x22"
  by (auto simp: is_hex_def)

lemma json_chars_drop_high:
  "json_chars (hs @ cs) \<Longrightarrow> \<forall>x \<in> set hs. 0x80 \<le> (of_char x :: nat) \<Longrightarrow> json_chars cs"
proof (induction hs)
  case Nil
  then show ?case by simp
next
  case (Cons h hs)
  from Cons.prems(2) have h: "h \<noteq> CHR 0x5C" by auto
  from Cons.prems(1) have "json_chars (h # (hs @ cs))" by simp
  then have "json_chars (hs @ cs)"
    using h by (cases rule: json_chars.cases) auto
  with Cons show ?case by simp
qed

lemma json_chars_backslash_u:
  "json_chars (CHR 0x5C # CHR ''u'' # s)
     \<Longrightarrow> \<exists>h1 h2 h3 h4 s'. s = h1 # h2 # h3 # h4 # s' \<and> json_chars s'"
  by (erule json_chars.cases) auto

lemma string_literal_complete:
  "json_chars cs \<Longrightarrow> \<exists>t. string_literal (cs @ CHR 0x22 # X) = Some (t, X)"
proof (induction "length cs" arbitrary: cs rule: less_induct)
  case less
  from less.prems show ?case
  proof (cases rule: json_chars.cases)
    case empty
    then show ?thesis by simp
  next
    case (escape e s)
    from less.hyps [of s] escape obtain t where "string_literal (s @ CHR 0x22 # X) = Some (t, X)"
      by auto
    with escape show ?thesis
      by (auto simp: emit_Some_eq)
  next
    case (plain c s)
    show ?thesis
    proof (cases "(of_char c :: nat) < 0x80")
      case True
      from less.hyps [of s] plain obtain t where "string_literal (s @ CHR 0x22 # X) = Some (t, X)"
        by auto
      with plain True show ?thesis
        by (auto simp: emit_Some_eq)
    next
      case False
      then have high: "0x80 \<le> (of_char c :: nat)" by simp
      obtain rr n where d: "DecodeRuneInString (c # s @ CHR 0x22 # X) = (rr, n)"
        by (cases "DecodeRuneInString (c # s @ CHR 0x22 # X)") auto
      define m where "m = n - 1"
      from decode_consumes [OF high d]
      have a: "\<forall>x \<in> set (take m (s @ CHR 0x22 # X)). 0x80 \<le> (of_char x :: nat)"
        unfolding m_def by simp
      have n: "m \<le> length s"
      proof (rule ccontr)
        assume "\<not> m \<le> length s"
        then have "take m (s @ CHR 0x22 # X) = s @ CHR 0x22 # take (m - Suc (length s)) X"
          by (simp add: take_Cons')
        then have "CHR 0x22 \<in> set (take m (s @ CHR 0x22 # X))"
          by simp
        with a have "0x80 \<le> (of_char (CHR 0x22) :: nat)" by blast
        then show False by simp
      qed
      then have t: "take m (s @ CHR 0x22 # X) = take m s"
        and dr: "drop m (s @ CHR 0x22 # X) = drop m s @ CHR 0x22 # X"
        by simp_all
      have "json_chars (take m s @ drop m s)" using plain by simp
      then have j: "json_chars (drop m s)"
        using a unfolding t by (rule json_chars_drop_high)
      have "length (drop m s) < length cs" using plain by simp
      from less.hyps [OF this j]
      obtain u where u: "string_literal (drop m s @ CHR 0x22 # X) = Some (u, X)"
        by blast
      have "string_literal (drop (n - 1) (s @ CHR 0x22 # X)) = Some (u, X)"
        using u dr unfolding m_def by simp
      with plain False d show ?thesis
        by (auto simp: emit_Some_eq)
    qed
  next
    case (unicode h1 h2 h3 h4 s)
    let ?in = "CHR 0x5C # CHR ''u'' # h1 # h2 # h3 # h4 # s @ CHR 0x22 # X"
    from unicode obtain r1 where g: "getu4 ?in = Some r1"
      using getu4_Some [of ?in] by auto
    show ?thesis
    proof (cases "IsSurrogate r1 \<and> utf16_DecodeRune r1 (getu4 (s @ CHR 0x22 # X)) \<noteq> RuneError")
      case False
      from less.hyps [of s] unicode
      obtain u where "string_literal (s @ CHR 0x22 # X) = Some (u, X)"
        by auto
      with unicode g False show ?thesis
        by (auto simp: emit_Some_eq)
    next
      case True
      then have "\<exists>r2. getu4 (s @ CHR 0x22 # X) = Some r2"
        by (cases "getu4 (s @ CHR 0x22 # X)") (auto simp: utf16_DecodeRune_def)
      then obtain g1 g2 g3 g4 s3
        where s3: "s @ CHR 0x22 # X = CHR 0x5C # CHR ''u'' # g1 # g2 # g3 # g4 # s3"
        using getu4_Some [of "s @ CHR 0x22 # X"] by auto
      then obtain s2 where s2: "s = CHR 0x5C # CHR ''u'' # s2"
        by (cases s; simp; cases "tl s"; simp)
      with unicode obtain k1 k2 k3 k4 s' where s': "s2 = k1 # k2 # k3 # k4 # s'"
        and j: "json_chars s'"
        using json_chars_backslash_u [of s2] by auto
      have "length s' < length cs" using unicode s2 s' by simp
      from less.hyps [OF this j]
      obtain u where "string_literal (s' @ CHR 0x22 # X) = Some (u, X)"
        by blast
      with unicode g True s2 s' show ?thesis
        by (auto simp: emit_Some_eq)
    qed
  qed
qed

text \<open>White space, values, members and objects, from the decoder to the grammar.\<close>

lemma take_eq_append: "take n s = p \<Longrightarrow> s = p @ drop n s"
  by (metis append_take_drop_id)

lemma json_ws_isSpace: "json_ws w = (\<forall>c \<in> set w. isSpace c)"
  by (auto simp: json_ws_def isSpace_def)

lemma json_ws_simps: "json_ws []" "json_ws (u @ w) = (json_ws u \<and> json_ws w)"
  by (auto simp: json_ws_def)

lemma skip_space_ws: "json_ws w \<Longrightarrow> skip_space (w @ s) = skip_space s"
  by (simp add: skip_space_def json_ws_isSpace dropWhile_append2)

lemma skip_space_split: "\<exists>w. s = w @ skip_space s \<and> json_ws w"
proof (intro exI conjI)
  show "s = takeWhile isSpace s @ skip_space s"
    by (simp add: skip_space_def)
  show "json_ws (takeWhile isSpace s)"
    by (auto simp: json_ws_isSpace dest: set_takeWhileD)
qed

lemma skip_space_hd: "skip_space s = c # r \<Longrightarrow> \<not> isSpace c"
  unfolding skip_space_def using hd_dropWhile [of isSpace s] by auto

lemma skip_space_Nil: "skip_space s = [] \<Longrightarrow> json_ws s"
  using skip_space_split [of s] by simp

lemma member_value_sound:
  "member_value s = Some (v, rest) \<Longrightarrow> \<exists>x. s = x @ rest \<and> json_value x"
proof (cases s)
  case Nil
  assume "member_value s = Some (v, rest)"
  with Nil show ?thesis by (simp add: member_value_def)
next
  case (Cons c s')
  assume m: "member_value s = Some (v, rest)"
  show ?thesis
  proof (cases "c = CHR 0x22")
    case True
    with m Cons have "string_literal s' = Some (v, rest)" by (simp add: member_value_def)
    from string_literal_sound [OF this] obtain cs where "s' = cs @ CHR 0x22 # rest" "json_chars cs"
      by blast
    with True Cons have "s = (CHR 0x22 # cs @ [CHR 0x22]) @ rest"
      "json_string (CHR 0x22 # cs @ [CHR 0x22])"
      by (auto simp: json_string_def)
    then show ?thesis unfolding json_value_def by blast
  next
    case False
    with m Cons have "take 4 s = ''null''" "rest = drop 4 s"
      by (auto simp: member_value_def split: if_splits)
    then have "s = ''null'' @ rest" using take_eq_append [of 4 s "''null''"] by simp
    then show ?thesis unfolding json_value_def by blast
  qed
qed

lemma json_members_ws: "json_ws w \<Longrightarrow> json_members V b \<Longrightarrow> json_members V (w @ b)"
proof (erule json_members.cases [of V b])
  fix w1 x w2
  assume "json_ws w" "b = w1 @ x @ w2" "json_ws w1" "json_member V x" "json_ws w2"
  then show "json_members V (w @ b)"
    using json_members.one [of "w @ w1" V x w2] by (simp add: json_ws_simps)
next
  fix w1 x w2 rest
  assume "json_ws w" "b = w1 @ x @ w2 @ CHR '','' # rest" "json_ws w1" "json_member V x"
    "json_ws w2" "json_members V rest"
  then show "json_members V (w @ b)"
    using json_members.more [of "w @ w1" V x w2 rest] by (simp add: json_ws_simps)
qed

lemma members_sound:
  "members s = Some (es, R) \<Longrightarrow> \<exists>body. s = body @ CHR ''}'' # R \<and> json_members json_value body"
proof (induction s arbitrary: es rule: members.induct)
  case 1
  then show ?case by simp
next
  case (2 c s1)
  from "2.prems" have c: "c = CHR 0x22" by (auto split: if_splits)
  with "2.prems" obtain k s2 where k: "string_literal s1 = Some (k, s2)"
    by (auto split: option.splits)
  with "2.prems" c obtain c2 s3 where s3: "skip_space s2 = c2 # s3"
    by (auto split: list.splits)
  with "2.prems" c k have c2: "c2 = CHR '':''" by (auto split: if_splits)
  with "2.prems" c k s3 obtain v s4 where v: "member_value (skip_space s3) = Some (v, s4)"
    by (auto split: option.splits)
  with "2.prems" c k s3 c2 obtain c5 s5 where s5: "skip_space s4 = c5 # s5"
    by (auto split: list.splits)
  from string_literal_sound [OF k] obtain kc where kc: "s1 = kc @ CHR 0x22 # s2" "json_chars kc"
    by blast
  from skip_space_split [of s2] s3 c2 obtain w1 where w1: "s2 = w1 @ CHR '':'' # s3" "json_ws w1"
    by auto
  from member_value_sound [OF v] obtain x where x: "skip_space s3 = x @ s4" "json_value x"
    by blast
  from skip_space_split [of s3] x obtain w2 where w2: "s3 = w2 @ x @ s4" "json_ws w2"
    by auto
  from skip_space_split [of s4] s5 obtain w3 where w3: "s4 = w3 @ c5 # s5" "json_ws w3"
    by auto
  define mem where "mem = (CHR 0x22 # kc @ [CHR 0x22]) @ w1 @ CHR '':'' # w2 @ x"
  have mem: "json_member json_value mem"
    unfolding json_member_def mem_def json_string_def using kc w1 w2 x by blast
  have s: "c # s1 = mem @ w3 @ c5 # s5"
    unfolding mem_def using c kc w1 w2 w3 by simp
  show ?case
  proof (cases "c5 = CHR '',''")
    case True
    with "2.prems" c k s3 c2 v s5 obtain es' where es': "members (skip_space s5) = Some (es', R)"
      by (auto split: option.splits)
    have "\<exists>body. skip_space s5 = body @ CHR ''}'' # R \<and> json_members json_value body"
      by (rule "2.IH" [OF _ k refl s3 _ v refl s5 True es']) (simp_all add: c c2)
    then obtain body where body: "skip_space s5 = body @ CHR ''}'' # R"
      "json_members json_value body"
      by blast
    from skip_space_split [of s5] body obtain w4 where w4: "s5 = w4 @ body @ CHR ''}'' # R"
      "json_ws w4"
      by auto
    have "json_members json_value ([] @ mem @ w3 @ CHR '','' # (w4 @ body))"
      using mem w3 w4 body
      by (intro json_members.more json_members_ws) (simp_all add: json_ws_simps)
    moreover have "c # s1 = ([] @ mem @ w3 @ CHR '','' # (w4 @ body)) @ CHR ''}'' # R"
      using s True w4 by simp
    ultimately show ?thesis by blast
  next
    case False
    with "2.prems" c k s3 c2 v s5 have "c5 = CHR ''}''" "R = s5"
      by (auto split: if_splits)
    moreover have "json_members json_value ([] @ mem @ w3)"
      using mem w3 by (intro json_members.one) (simp_all add: json_ws_simps)
    ultimately show ?thesis using s by auto
  qed
qed

lemma object_sound:
  "object s = Some (es, R)
     \<Longrightarrow> \<exists>body. s = body @ CHR ''}'' # R \<and> (json_ws body \<or> json_members json_value body)"
proof -
  assume a: "object s = Some (es, R)"
  then obtain c s' where s': "skip_space s = c # s'"
    by (auto simp: object_def split: list.splits)
  from skip_space_split [of s] s' obtain w where w: "s = w @ c # s'" "json_ws w" by auto
  show ?thesis
  proof (cases "c = CHR ''}''")
    case True
    with a s' have "R = s'" by (simp add: object_def)
    with w True show ?thesis by blast
  next
    case False
    with a s' have "members (c # s') = Some (es, R)" by (simp add: object_def)
    from members_sound [OF this] obtain body where "c # s' = body @ CHR ''}'' # R"
      "json_members json_value body"
      by blast
    with w have "s = (w @ body) @ CHR ''}'' # R" "json_members json_value (w @ body)"
      by (simp_all add: json_members_ws)
    then show ?thesis by blast
  qed
qed

lemma Unmarshal_sound:
  "Unmarshal d m = Inr r \<Longrightarrow> (r \<noteq> None \<and> json_object d) \<or> (r = None \<and> json_null d)"
proof -
  assume a: "Unmarshal d m = Inr r"
  then obtain c s where s: "skip_space d = c # s"
    by (auto simp: Unmarshal_def split: list.splits)
  from skip_space_split [of d] s obtain w0 where w0: "d = w0 @ c # s" "json_ws w0" by auto
  show ?thesis
  proof (cases "c = CHR ''{''")
    case True
    with a s obtain es rest where o: "object s = Some (es, rest)" and r: "skip_space rest = []"
      "r \<noteq> None"
      by (auto simp: Unmarshal_def split: option.splits if_splits)
    from object_sound [OF o] obtain body where "s = body @ CHR ''}'' # rest"
      "json_ws body \<or> json_members json_value body"
      by blast
    with w0 True skip_space_Nil [OF r(1)] have "json_object d"
      unfolding json_object_def json_object_of_def by blast
    with r show ?thesis by simp
  next
    case False
    with a s have n: "take 4 (c # s) = ''null''" "skip_space (drop 4 (c # s)) = []" "r = None"
      by (auto simp: Unmarshal_def split: if_splits)
    have "c # s = ''null'' @ drop 4 (c # s)"
      using n(1) by (rule take_eq_append)
    with w0 skip_space_Nil [OF n(2)] have "json_null d"
      unfolding json_null_def by (metis append_Cons)
    with n show ?thesis by simp
  qed
qed

text \<open>And from the grammar to the decoder.\<close>

lemma skip_space_nonspace: "\<not> isSpace c \<Longrightarrow> json_ws w \<Longrightarrow> skip_space (w @ c # s) = c # s"
  by (simp add: skip_space_ws skip_space_Cons)

lemma member_value_complete:
  "json_value x \<Longrightarrow> \<exists>v. member_value (x @ R) = Some (v, R)"
proof -
  assume "json_value x"
  then consider (str) cs where "x = CHR 0x22 # cs @ [CHR 0x22]" "json_chars cs" | (null) "x = ''null''"
    unfolding json_value_def json_string_def by blast
  then show ?thesis
  proof cases
    case str
    from string_literal_complete [OF str(2), of R] str(1) show ?thesis
      by (simp add: member_value_def)
  next
    case null
    then show ?thesis by (simp add: member_value_def)
  qed
qed

lemma json_value_head: "json_value x \<Longrightarrow> \<exists>c r. x = c # r \<and> \<not> isSpace c"
  by (auto simp: json_value_def json_string_def isSpace_def)

lemma members_member:
  assumes "json_member json_value x" and "json_ws w" and "\<not> isSpace c5"
  shows "\<exists>k v. members (x @ w @ c5 # S)
           = (if c5 = CHR '','' then
                (case members (skip_space S) of None \<Rightarrow> None
                 | Some (es, rest) \<Rightarrow> Some ((k, v) # es, rest))
              else if c5 = CHR ''}'' then Some ([(k, v)], S) else None)"
proof -
  from assms(1) obtain kc w1 w2 y where x: "x = (CHR 0x22 # kc @ [CHR 0x22]) @ w1 @ CHR '':'' # w2 @ y"
    and kc: "json_chars kc" and w: "json_ws w1" "json_ws w2" and y: "json_value y"
    unfolding json_member_def json_string_def by blast
  from json_value_head [OF y] obtain c r where c: "y = c # r" "\<not> isSpace c" by blast
  from string_literal_complete [OF kc] obtain k
    where k: "string_literal (kc @ CHR 0x22 # w1 @ CHR '':'' # w2 @ y @ w @ c5 # S)
                   = Some (k, w1 @ CHR '':'' # w2 @ y @ w @ c5 # S)"
    by blast
  from member_value_complete [OF y] obtain v
    where v: "member_value (y @ w @ c5 # S) = Some (v, w @ c5 # S)"
    by blast
  have sp: "skip_space (w1 @ CHR '':'' # w2 @ y @ w @ c5 # S) = CHR '':'' # w2 @ y @ w @ c5 # S"
    "skip_space (w2 @ y @ w @ c5 # S) = y @ w @ c5 # S"
    "skip_space (w @ c5 # S) = c5 # S"
    using w assms(2,3) c by (simp_all add: skip_space_nonspace isSpace_simps)
  have "members (x @ w @ c5 # S)
           = (if c5 = CHR '','' then
                (case members (skip_space S) of None \<Rightarrow> None
                 | Some (es, rest) \<Rightarrow> Some ((k, v) # es, rest))
              else if c5 = CHR ''}'' then Some ([(k, v)], S) else None)"
    unfolding x by (simp add: k v sp)
  then show ?thesis by blast
qed

lemma json_member_head: "json_member V x \<Longrightarrow> \<exists>r. x = CHR 0x22 # r"
  by (auto simp: json_member_def json_string_def)

lemma members_complete:
  "json_members json_value body \<Longrightarrow> \<exists>es. members (skip_space (body @ CHR ''}'' # R)) = Some (es, R)"
proof (induction rule: json_members.induct)
  case (one w1 x w2)
  from json_member_head [OF one(2)] obtain r where r: "x = CHR 0x22 # r" by blast
  have "skip_space ((w1 @ x @ w2) @ CHR ''}'' # R) = x @ w2 @ CHR ''}'' # R"
    using one(1) unfolding r by (simp add: skip_space_nonspace isSpace_simps)
  with members_member [OF one(2,3), of "CHR ''}''" R] show ?case
    by (auto simp: isSpace_simps)
next
  case (more w1 x w2 rest)
  from json_member_head [OF more(2)] obtain r where r: "x = CHR 0x22 # r" by blast
  have "skip_space ((w1 @ x @ w2 @ CHR '','' # rest) @ CHR ''}'' # R)
          = x @ w2 @ CHR '','' # rest @ CHR ''}'' # R"
    using more(1) unfolding r by (simp add: skip_space_nonspace isSpace_simps)
  with members_member [OF more(2,3), of "CHR '',''" "rest @ CHR ''}'' # R"] more.IH show ?case
    by (auto simp: isSpace_simps)
qed

lemma object_complete:
  assumes "json_ws body \<or> json_members json_value body"
  shows "\<exists>es. object (body @ CHR ''}'' # R) = Some (es, R)"
  using assms
proof
  assume "json_ws body"
  then show ?thesis
    by (simp add: object_def skip_space_nonspace isSpace_simps)
next
  assume "json_members json_value body"
  from members_complete [OF this, of R] obtain es
    where es: "members (skip_space (body @ CHR ''}'' # R)) = Some (es, R)"
    by blast
  then obtain c s' where c: "skip_space (body @ CHR ''}'' # R) = c # s'"
    by (cases "skip_space (body @ CHR ''}'' # R)") auto
  with es have "c = CHR 0x22" by (auto split: if_splits)
  with es c show ?thesis by (simp add: object_def)
qed

lemma Unmarshal_object: "json_object d \<Longrightarrow> \<exists>t. Unmarshal d m = Inr (Some t)"
proof -
  assume "json_object d"
  then obtain w0 body w9 where d: "d = w0 @ CHR ''{'' # body @ CHR ''}'' # w9"
    and w: "json_ws w0" "json_ws w9" and b: "json_ws body \<or> json_members json_value body"
    unfolding json_object_def json_object_of_def by blast
  from object_complete [OF b, of w9] obtain es where "object (body @ CHR ''}'' # w9) = Some (es, w9)"
    by blast
  moreover have "skip_space w9 = []"
    using skip_space_ws [OF w(2), of "[]"] by (simp add: skip_space_def)
  ultimately show ?thesis
    unfolding d using w(1) by (simp add: Unmarshal_def skip_space_nonspace isSpace_simps)
qed

lemma Unmarshal_null: "json_null d \<Longrightarrow> Unmarshal d m = Inr None"
proof -
  assume "json_null d"
  then obtain w0 w9 where d: "d = w0 @ ''null'' @ w9" and w: "json_ws w0" "json_ws w9"
    unfolding json_null_def by blast
  have "skip_space w9 = []"
    using skip_space_ws [OF w(2), of "[]"] by (simp add: skip_space_def)
  moreover have "skip_space d = ''null'' @ w9"
    unfolding d using w(1) by (simp add: skip_space_nonspace isSpace_def)
  ultimately show ?thesis
    by (simp add: Unmarshal_def)
qed

lemma Unmarshal_accepts:
  "(\<exists>r. Unmarshal d m = Inr r) = (json_object d \<or> json_null d)"
  using Unmarshal_sound [of d m] Unmarshal_object [of d m] Unmarshal_null [of d m] by auto

lemma Unmarshal_error: "Unmarshal d m = Inl e \<Longrightarrow> e = ParseError"
  by (auto simp: Unmarshal_def split: list.splits option.splits if_splits)

text \<open>
  What every object of the grammar looks like once its white space is dropped: it starts
  with the brace, and unless it has a comma or is empty it ends with the last byte of a
  value and the closing brace. This tells of a given text that it is no object.
\<close>

lemma strip_ws_simps:
  "strip_ws (u @ v) = strip_ws u @ strip_ws v"
  "strip_ws (c # s) = (if c \<in> {CHR '' '', CHR 0x09, CHR 0x0A, CHR 0x0D} then strip_ws s
                        else c # strip_ws s)"
  "strip_ws [] = []"
  by (simp_all add: strip_ws_def)

lemma strip_ws_ws: "json_ws w \<Longrightarrow> strip_ws w = []"
  by (auto simp: strip_ws_def json_ws_def filter_empty_conv)

lemma json_members_shape:
  assumes V: "\<And>v. V v \<Longrightarrow> \<exists>u c. v = u @ [c] \<and> c \<in> L"
    and L: "\<And>c. c \<in> L \<Longrightarrow> c \<notin> {CHR '' '', CHR 0x09, CHR 0x0A, CHR 0x0D}"
    and m: "json_members V body"
  shows "CHR '','' \<in> set body \<or> (\<exists>c \<in> L. \<exists>r. rev (strip_ws body) = c # r)"
  using m
proof (cases rule: json_members.cases)
  case (more w1 x w2 rest)
  then show ?thesis by simp
next
  case (one w1 x w2)
  from one(3) obtain k u1 u2 v where x: "x = k @ u1 @ CHR '':'' # u2 @ v" and v: "V v"
    unfolding json_member_def by blast
  from V [OF v] obtain u c where c: "v = u @ [c]" "c \<in> L" by blast
  define P where "P = w1 @ k @ u1 @ CHR '':'' # u2 @ u"
  have "body = P @ [c] @ w2"
    unfolding one(1) x c(1) P_def by simp
  moreover have "strip_ws [c] = [c]"
    using L [OF c(2)] by (simp add: strip_ws_def)
  ultimately have "strip_ws body = strip_ws P @ [c]"
    using one(4) by (simp only: strip_ws_simps(1) strip_ws_ws append_Nil2)
  then have "rev (strip_ws body) = c # rev (strip_ws P)"
    by simp
  with c(2) show ?thesis by blast
qed

lemma json_object_of_shape:
  assumes V: "\<And>v. V v \<Longrightarrow> \<exists>u c. v = u @ [c] \<and> c \<in> L"
    and L: "\<And>c. c \<in> L \<Longrightarrow> c \<notin> {CHR '' '', CHR 0x09, CHR 0x0A, CHR 0x0D}"
    and d: "json_object_of V d"
  shows "CHR '','' \<in> set d \<or> strip_ws d = ''{}''
           \<or> (\<exists>c \<in> L. take 2 (rev (strip_ws d)) = [CHR ''}'', c])"
proof -
  from d obtain w0 body w9 where d: "d = w0 @ CHR ''{'' # body @ CHR ''}'' # w9"
    and w: "json_ws w0" "json_ws w9" and b: "json_ws body \<or> json_members V body"
    unfolding json_object_of_def by blast
  have s: "strip_ws d = CHR ''{'' # strip_ws body @ ''}''"
    unfolding d using w by (simp add: strip_ws_simps strip_ws_ws)
  from b show ?thesis
  proof
    assume "json_ws body"
    with s show ?thesis by (simp add: strip_ws_ws)
  next
    assume "json_members V body"
    from json_members_shape [of V L, OF V L this]
    show ?thesis
    proof
      assume "CHR '','' \<in> set body"
      then show ?thesis unfolding d by simp
    next
      assume "\<exists>c \<in> L. \<exists>r. rev (strip_ws body) = c # r"
      then obtain c r where "c \<in> L" "rev (strip_ws body) = c # r" by blast
      with s show ?thesis by auto
    qed
  qed
qed

lemma json_string_last: "json_string v \<Longrightarrow> \<exists>u c. v = u @ [c] \<and> c \<in> {CHR 0x22}"
proof -
  assume "json_string v"
  then obtain cs where "v = (CHR 0x22 # cs) @ [CHR 0x22]"
    unfolding json_string_def by auto
  then show ?thesis by blast
qed

lemma json_value_last:
  "json_value v \<Longrightarrow> \<exists>u c. v = u @ [c] \<and> c \<in> {CHR 0x22, CHR ''l''}"
proof -
  assume "json_value v"
  then consider "json_string v" | "v = ''nul'' @ ''l''"
    unfolding json_value_def by auto
  then show ?thesis
  proof cases
    case 1
    from json_string_last [OF this] show ?thesis by blast
  next
    case 2
    then show ?thesis by blast
  qed
qed

lemma string_pairs_object_shape:
  "string_pairs_object d
     \<Longrightarrow> CHR '','' \<in> set d \<or> strip_ws d = ''{}''
           \<or> take 2 (rev (strip_ws d)) = [CHR ''}'', CHR 0x22]"
  using json_object_of_shape [of json_string "{CHR 0x22}" d, OF json_string_last]
  unfolding string_pairs_object_def by auto

lemma json_object_shape:
  "json_object d
     \<Longrightarrow> CHR '','' \<in> set d \<or> strip_ws d = ''{}''
           \<or> take 2 (rev (strip_ws d)) = [CHR ''}'', CHR 0x22]
           \<or> take 2 (rev (strip_ws d)) = ''}l''"
  using json_object_of_shape [of json_value "{CHR 0x22, CHR ''l''}" d, OF json_value_last]
  unfolding json_object_def by auto

lemma json_object_first: "json_object d \<Longrightarrow> take 1 (strip_ws d) = ''{''"
  by (auto simp: json_object_def json_object_of_def strip_ws_simps strip_ws_ws)

lemma json_stringI: "json_chars cs \<Longrightarrow> json_string (CHR 0x22 # cs @ [CHR 0x22])"
  unfolding json_string_def by blast

lemma json_memberI:
  "json_string k \<Longrightarrow> json_ws w1 \<Longrightarrow> json_ws w2 \<Longrightarrow> V v
     \<Longrightarrow> json_member V (k @ w1 @ CHR '':'' # w2 @ v)"
  unfolding json_member_def by blast

lemma json_object_ofI:
  "json_ws w0 \<Longrightarrow> json_ws w9 \<Longrightarrow> json_ws body \<or> json_members V body
     \<Longrightarrow> json_object_of V (w0 @ CHR ''{'' # body @ CHR ''}'' # w9)"
  unfolding json_object_of_def by blast

lemma json_null_shape: "json_null d \<Longrightarrow> strip_ws d = ''null''"
  by (auto simp: json_null_def strip_ws_simps strip_ws_ws)

lemma json_member_mono: "json_member V x \<Longrightarrow> (\<And>v. V v \<Longrightarrow> W v) \<Longrightarrow> json_member W x"
  unfolding json_member_def by blast

lemma json_members_mono:
  "json_members V b \<Longrightarrow> (\<And>v. V v \<Longrightarrow> W v) \<Longrightarrow> json_members W b"
proof (induction rule: json_members.induct)
  case (one w1 x w2)
  then show ?case by (intro json_members.one) (auto intro: json_member_mono)
next
  case (more w1 x w2 rest)
  then show ?case by (intro json_members.more) (auto intro: json_member_mono)
qed

lemma string_pairs_json_object: "string_pairs_object d \<Longrightarrow> json_object d"
  unfolding string_pairs_object_def json_object_def json_object_of_def json_value_def
  using json_members_mono [of json_string _ "\<lambda>x. json_string x \<or> x = ''null''"] by blast

subsection \<open>Saving and loading\<close>

text \<open>
  Claim C1 says that for every table of strings \<open>Save\<close> followed by \<open>Load\<close> on the same
  path yields the original mapping. A Go string is any sequence of bytes, and
  \<^verbatim>\<open>json.Marshal\<close> coerces strings to valid UTF-8, replacing invalid bytes with the
  Unicode replacement rune: the body that is the single byte \<open>0xFF\<close> is saved as the
  escape of U+FFFD and comes back as the three bytes \<open>EF BF BD\<close>.
\<close>

theorem round_trip_counterexample:
  "Save \<lparr>Filepath = ''f'', Snippets = Some [(''k'', [CHR 0xFF])]\<rparr> (\<lambda>_. Missing)
     = (None, (\<lambda>_. Missing)(''f'' := Data (MarshalIndent (Some [(''k'', [CHR 0xFF])]))))
   \<and> Load \<lparr>Filepath = ''f'', Snippets = Some [(''k'', [CHR 0xFF])]\<rparr>
         ((\<lambda>_. Missing)(''f'' := Data (MarshalIndent (Some [(''k'', [CHR 0xFF])]))))
       = Inr \<lparr>Filepath = ''f'', Snippets = Some [(''k'', [CHR 0xEF, CHR 0xBF, CHR 0xBD])]\<rparr>"
  by (simp add: Save_def WriteFile_def Load_def ReadFile_def Unmarshal_MarshalIndent
        store_members_def entries_def coerce_entry_def DecodeRuneInString_def
        EncodeRune_RuneError)

text \<open>
  Claim C1, amended. For every table whose names and bodies are valid UTF-8 (empty
  bodies and bodies with newlines among them), a \<open>Save\<close> that succeeds followed by
  \<open>Load\<close> on the same path, into the same manager or into a fresh one, yields a table
  that is the original mapping.
\<close>

theorem Save_Load_round_trip:
  assumes "Snippets sm = Some t" and "wf_table t" and "valid_table t"
    and "Save sm fs = (None, fs')"
  shows "(\<exists>sm'. Load sm fs' = Inr sm' \<and> map_of (entries (Snippets sm')) = map_of t)
       \<and> (\<exists>sm'. Load (sm\<lparr>Snippets := Some []\<rparr>) fs' = Inr sm'
                 \<and> map_of (entries (Snippets sm')) = map_of t)"
proof -
  have m: "map_of (store_members (sort_key fst t) t0) = map_of t0 ++ map_of t" for t0
    by (simp add: map_of_store_members map_of_sort_key [OF assms(2)])
  have "Load sm fs' = Inr (sm\<lparr>Snippets := Some (store_members (sort_key fst t) t)\<rparr>)"
    using Load_after_Save [OF assms(4,1), of sm] assms(1)
    by (simp add: coerce_valid_table [OF assms(3)] entries_def)
  moreover have "Load (sm\<lparr>Snippets := Some []\<rparr>) fs'
                   = Inr (sm\<lparr>Snippets := Some (store_members (sort_key fst t) [])\<rparr>)"
    using Load_after_Save [OF assms(4,1), of "sm\<lparr>Snippets := Some []\<rparr>"]
    by (simp add: coerce_valid_table [OF assms(3)] entries_def)
  moreover have "map_of t ++ map_of t = map_of t"
    by (simp add: map_add_def fun_eq_iff split: option.splits)
  ultimately show ?thesis by (simp add: entries_def m)
qed

theorem Save_Load_round_trip_witness:
  "wf_table [(''b'', ''x'' @ [CHR 0x0A] @ ''y''), (''a'', '''')]
   \<and> valid_table [(''b'', ''x'' @ [CHR 0x0A] @ ''y''), (''a'', '''')]
   \<and> Save \<lparr>Filepath = ''f'',
             Snippets = Some [(''b'', ''x'' @ [CHR 0x0A] @ ''y''), (''a'', '''')]\<rparr> (\<lambda>_. Missing)
       = (None, (\<lambda>_. Missing)(''f'' := Data (MarshalIndent
            (Some [(''b'', ''x'' @ [CHR 0x0A] @ ''y''), (''a'', '''')]))))
   \<and> (\<exists>sm'. Load \<lparr>Filepath = ''f'', Snippets = Some []\<rparr>
               ((\<lambda>_. Missing)(''f'' := Data (MarshalIndent
                  (Some [(''b'', ''x'' @ [CHR 0x0A] @ ''y''), (''a'', '''')])))) = Inr sm'
             \<and> map_of (entries (Snippets sm'))
                 = map_of [(''b'', ''x'' @ [CHR 0x0A] @ ''y''), (''a'', '''')])"
proof -
  let ?t = "[(''b'', ''x'' @ [CHR 0x0A] @ ''y''), (''a'', '''')]"
  let ?sm = "\<lparr>Filepath = ''f'', Snippets = Some ?t\<rparr>"
  let ?fs' = "(\<lambda>_. Missing)(''f'' := Data (MarshalIndent (Some ?t)))"
  have w: "wf_table ?t" by (simp add: wf_table_def)
  have v: "valid_table ?t"
    by (simp add: valid_table_def DecodeRuneInString_def RuneError_def)
  have s: "Save ?sm (\<lambda>_. Missing) = (None, ?fs')"
    by (simp add: Save_def WriteFile_def)
  have t: "Snippets ?sm = Some ?t" by simp
  show ?thesis
    using w v s Save_Load_round_trip [OF t w v s] by simp
qed

text \<open>
  Claim C6 says that \<open>Load\<close> on a path where the file does not exist resets the table
  and succeeds, and that a file that exists but cannot be parsed as a JSON object of
  string-to-string pairs makes \<open>Load\<close> fail with a parse error. The first half holds.
  The second does not hold of every such file: \<^verbatim>\<open>json.Unmarshal\<close> leaves a string alone
  when the value it is given is \<^verbatim>\<open>null\<close>, so an object with a \<^verbatim>\<open>null\<close> value, which is no
  object of string-to-string pairs, is loaded, and the name has the empty body.
\<close>

theorem null_value_counterexample:
  "\<not> string_pairs_object (''{'' @ [CHR 0x22] @ ''a'' @ [CHR 0x22] @ '': null}'')
   \<and> Load \<lparr>Filepath = ''f'', Snippets = Some []\<rparr>
         (\<lambda>_. Data (''{'' @ [CHR 0x22] @ ''a'' @ [CHR 0x22] @ '': null}''))
       = Inr \<lparr>Filepath = ''f'', Snippets = Some [(''a'', [])]\<rparr>"
proof
  show "\<not> string_pairs_object (''{'' @ [CHR 0x22] @ ''a'' @ [CHR 0x22] @ '': null}'')"
    using string_pairs_object_shape [of "''{'' @ [CHR 0x22] @ ''a'' @ [CHR 0x22] @ '': null}''"]
    by (auto simp: strip_ws_def)
  show "Load \<lparr>Filepath = ''f'', Snippets = Some []\<rparr>
         (\<lambda>_. Data (''{'' @ [CHR 0x22] @ ''a'' @ [CHR 0x22] @ '': null}''))
       = Inr \<lparr>Filepath = ''f'', Snippets = Some [(''a'', [])]\<rparr>"
    by (simp add: Load_def ReadFile_def Unmarshal_def object_def skip_space_def isSpace_def
          emit_def member_value_def store_members_def entries_def)
qed

text \<open>
  A file that holds the literal \<^verbatim>\<open>null\<close> is loaded without an error as well, and the
  manager is left with the nil map, which \<open>NewSnippetManager\<close> and the branch of \<open>Load\<close>
  for a missing file never leave: they make the map. The next \<^verbatim>\<open>add\<close> then assigns into
  the nil map and the run ends on the panic of the runtime. The property below says
  nothing of this file.
\<close>

lemma Load_null_then_add_panics:
  "Load (NewSnippetManager ''/home/u'') (\<lambda>_. Data ''null'')
     = Inr ((NewSnippetManager ''/home/u'')\<lparr>Snippets := None\<rparr>)
   \<and> exit_code (main [''snippetmanager'', ''add'', ''a''] ''/home/u''
                  \<lparr>tokens = [''x'', ''''], failed = False\<rparr> (\<lambda>_. Data ''null'')) = 2"
proof -
  have l: "Load (NewSnippetManager ''/home/u'') (\<lambda>_. Data ''null'')
     = Inr ((NewSnippetManager ''/home/u'')\<lparr>Snippets := None\<rparr>)"
    by (simp add: Load_def ReadFile_def Unmarshal_def skip_space_def isSpace_def)
  show ?thesis
    unfolding main_def l by (simp add: l Add_def)
qed

text \<open>
  Claim C6, amended. For every store, \<open>Load\<close> on a path where the file does not exist
  resets the table to the empty one and returns no error (a path that cannot be read for
  another reason makes \<open>Load\<close> return that error). A file that exists, holds more than
  the literal \<^verbatim>\<open>null\<close>, and cannot be parsed as a JSON object whose values are strings or
  \<^verbatim>\<open>null\<close> makes \<open>Load\<close> fail with the parse error; a file that can be parsed as such an
  object is loaded without an error.
\<close>

theorem Load_missing_or_unparsable:
  "(fs (Filepath sm) = Missing \<or> fs (Filepath sm) = Uncreatable \<longrightarrow>
      Load sm fs = Inr (sm\<lparr>Snippets := Some []\<rparr>))
   \<and> (fs (Filepath sm) = Unreadable \<longrightarrow> Load sm fs = Inl IOError)
   \<and> (fs (Filepath sm) = Data d \<or> fs (Filepath sm) = ReadOnly d \<longrightarrow>
        (\<not> json_object d \<and> \<not> json_null d \<longrightarrow> Load sm fs = Inl ParseError)
        \<and> (json_object d \<longrightarrow> (\<exists>t. Load sm fs = Inr (sm\<lparr>Snippets := Some t\<rparr>))))"
proof -
  have 1: "Unmarshal d (Snippets sm) = Inl ParseError" if "\<not> json_object d" "\<not> json_null d"
  proof (cases "Unmarshal d (Snippets sm)")
    case (Inl e)
    with Unmarshal_error [of d "Snippets sm" e] show ?thesis by simp
  next
    case (Inr r)
    with Unmarshal_sound [of d "Snippets sm" r] that show ?thesis by simp
  qed
  have 2: "\<exists>t. Load sm fs = Inr (sm\<lparr>Snippets := Some t\<rparr>)"
    if "fs (Filepath sm) = Data d \<or> fs (Filepath sm) = ReadOnly d" "json_object d"
  proof -
    from Unmarshal_object [OF that(2)] obtain t where "Unmarshal d (Snippets sm) = Inr (Some t)"
      by blast
    with that(1) have "Load sm fs = Inr (sm\<lparr>Snippets := Some t\<rparr>)"
      by (auto simp: Load_def ReadFile_def)
    then show ?thesis by blast
  qed
  have 3: "Load sm fs = Inl ParseError"
    if "fs (Filepath sm) = Data d \<or> fs (Filepath sm) = ReadOnly d"
      "\<not> json_object d" "\<not> json_null d"
    using that(1) 1 [OF that(2,3)] by (auto simp: Load_def ReadFile_def)
  have 4: "Load sm fs = Inr (sm\<lparr>Snippets := Some []\<rparr>)"
    if "fs (Filepath sm) = Missing \<or> fs (Filepath sm) = Uncreatable"
    using that by (auto simp: Load_def ReadFile_def IsNotExist_def)
  have 5: "Load sm fs = Inl IOError" if "fs (Filepath sm) = Unreadable"
    using that by (simp add: Load_def ReadFile_def IsNotExist_def)
  show ?thesis
    using 2 3 4 5 by blast
qed

theorem Load_missing_or_unparsable_witness:
  "Load \<lparr>Filepath = ''f'', Snippets = Some [(''old'', ''x'')]\<rparr> (\<lambda>_. Missing)
     = Inr \<lparr>Filepath = ''f'', Snippets = Some []\<rparr>
   \<and> Load \<lparr>Filepath = ''f'', Snippets = Some [(''old'', ''x'')]\<rparr> (\<lambda>_. Uncreatable)
     = Inr \<lparr>Filepath = ''f'', Snippets = Some []\<rparr>
   \<and> Load \<lparr>Filepath = ''f'', Snippets = Some []\<rparr> (\<lambda>_. Unreadable) = Inl IOError
   \<and> \<not> json_object (''{'' @ [CHR 0x22] @ ''a'' @ [CHR 0x22] @ '': true}'')
   \<and> \<not> json_null (''{'' @ [CHR 0x22] @ ''a'' @ [CHR 0x22] @ '': true}'')
   \<and> Load \<lparr>Filepath = ''f'', Snippets = Some []\<rparr>
        (\<lambda>_. Data (''{'' @ [CHR 0x22] @ ''a'' @ [CHR 0x22] @ '': true}''))
       = Inl ParseError
   \<and> \<not> json_object ''[1, 2]'' \<and> \<not> json_null ''[1, 2]''
   \<and> Load \<lparr>Filepath = ''f'', Snippets = Some []\<rparr> (\<lambda>_. ReadOnly ''[1, 2]'') = Inl ParseError
   \<and> json_object (''{'' @ [CHR 0x22] @ ''a'' @ [CHR 0x22] @ '': null}'')
   \<and> (\<exists>t. Load \<lparr>Filepath = ''f'', Snippets = Some []\<rparr>
             (\<lambda>_. Data (''{'' @ [CHR 0x22] @ ''a'' @ [CHR 0x22] @ '': null}''))
            = Inr \<lparr>Filepath = ''f'', Snippets = Some t\<rparr>)"
proof -
  let ?sm = "\<lparr>Filepath = ''f'', Snippets = Some []\<rparr>"
  let ?dT = "''{'' @ [CHR 0x22] @ ''a'' @ [CHR 0x22] @ '': true}''"
  let ?dN = "''{'' @ [CHR 0x22] @ ''a'' @ [CHR 0x22] @ '': null}''"
  have t: "\<not> json_object ?dT" "\<not> json_null ?dT"
    using json_object_shape [of ?dT] json_null_shape [of ?dT] by (auto simp: strip_ws_def)
  have a: "\<not> json_object ''[1, 2]''" "\<not> json_null ''[1, 2]''"
    using json_object_first [of "''[1, 2]''"] json_null_shape [of "''[1, 2]''"]
    by (auto simp: strip_ws_def)
  let ?m = "(CHR 0x22 # ''a'' @ [CHR 0x22]) @ [] @ CHR '':'' # '' '' @ ''null''"
  have "json_chars ''a''"
    by (intro json_chars.plain json_chars.empty) simp_all
  then have "json_string (CHR 0x22 # ''a'' @ [CHR 0x22])"
    by (rule json_stringI)
  then have "json_member json_value ?m"
    by (rule json_memberI) (simp_all add: json_ws_def json_value_def)
  then have "json_members json_value ([] @ ?m @ [])"
    by (intro json_members.one) (simp_all add: json_ws_def)
  then have "json_object_of json_value ([] @ CHR ''{'' # ([] @ ?m @ []) @ CHR ''}'' # [])"
    by (intro json_object_ofI) (simp_all add: json_ws_def)
  then have n: "json_object ?dN"
    unfolding json_object_def by simp
  show ?thesis
    using t a n
      Load_missing_or_unparsable
        [of "\<lambda>_. Missing" "\<lparr>Filepath = ''f'', Snippets = Some [(''old'', ''x'')]\<rparr>"]
      Load_missing_or_unparsable
        [of "\<lambda>_. Uncreatable" "\<lparr>Filepath = ''f'', Snippets = Some [(''old'', ''x'')]\<rparr>"]
      Load_missing_or_unparsable [of "\<lambda>_. Unreadable" ?sm]
      Load_missing_or_unparsable [of "\<lambda>_. Data ?dT" ?sm ?dT]
      Load_missing_or_unparsable [of "\<lambda>_. ReadOnly ''[1, 2]''" ?sm "''[1, 2]''"]
      Load_missing_or_unparsable [of "\<lambda>_. Data ?dN" ?sm ?dN]
    by simp
qed

subsection \<open>Names\<close>

text \<open>
  Claim C9 says that no sequence of operations reachable through the command line
  produces a table with the empty string as a name. Nothing in the program checks the
  name: \<^verbatim>\<open>add\<close> with an empty argument stores its snippet under the empty name, and the
  next run loads it.
\<close>

theorem empty_name_counterexample:
  "Load (NewSnippetManager ''/home/u'')
     (files (main [''snippetmanager'', ''add'', ''''] ''/home/u''
               \<lparr>tokens = [''x'', ''''], failed = False\<rparr> (\<lambda>_. Missing)))
     = Inr \<lparr>Filepath = ''/home/u/.config/micro/snippets.json'', Snippets = Some [('''', ''x'')]\<rparr>"
  by (simp add: main_def Load_def ReadFile_def IsNotExist_def NewSnippetManager_def
        filepath_Join_def Add_def Save_def WriteFile_def MarshalIndent_def object_member_def
        appendString_def htmlSafeSet_def Println_def Unmarshal_def skip_space_def isSpace_def
        object_def emit_def member_value_def store_members_def entries_def)

lemma Load_Filepath: "Load sm fs = Inr sm' \<Longrightarrow> Filepath sm' = Filepath sm"
  by (auto simp: Load_def split: sum.splits if_splits)

lemma Save_cases: "(\<exists>fs'. Save sm fs = (None, fs')) \<or> Save sm fs = (Some IOError, fs)"
  by (simp add: Save_def WriteFile_def split: node.splits)

lemma persist_names_ok:
  assumes "Filepath sm' = Filepath (NewSnippetManager home)" and "Snippets sm' = Some t'"
    and "[] \<notin> fst ` set t'" and "names_ok home fs"
  shows "names_ok home (snd (Save sm' fs))"
proof -
  consider fs' where "Save sm' fs = (None, fs')" | "Save sm' fs = (Some IOError, fs)"
    using Save_cases [of sm' fs] by blast
  then show ?thesis
  proof cases
    case 1
    have "coerce_utf8 (fst e) \<noteq> []" if "e \<in> set t'" for e
    proof -
      have "fst e \<noteq> []" using that assms(3) by force
      then show ?thesis by (simp add: coerce_utf8_Nil)
    qed
    then have "[] \<notin> fst ` set (map coerce_entry (sort_key fst t'))"
      by (force simp: coerce_entry_def)
    then show ?thesis
      using Load_after_Save [OF 1 assms(2), of "NewSnippetManager home"] assms(1) 1
      by (simp add: names_ok_def no_empty_name_def entries_def keys_store_members
            NewSnippetManager_def)
  next
    case 2
    with assms(4) show ?thesis by simp
  qed
qed

lemma Add_files:
  "snd (snd (snd (Add sm name inp fs)))
     = (case Snippets sm of
          None \<Rightarrow> fs
        | Some t \<Rightarrow>
            if snd (read_lines (tokens inp)) \<and> failed inp then fs
            else snd (Save (sm\<lparr>Snippets := Some (AList.update name
                                 (Join (fst (read_lines (tokens inp))) [CHR 0x0A]) t)\<rparr>) fs))"
  by (auto simp: Add_def Let_def split: prod.splits option.splits)

lemma Delete_files:
  "snd (snd (Delete sm name fs))
     = (case Snippets sm of
          None \<Rightarrow> fs
        | Some t \<Rightarrow>
            if map_of t name = None then fs
            else snd (Save (sm\<lparr>Snippets := Some (AList.delete name t)\<rparr>) fs))"
  by (auto simp: Delete_def Let_def entries_def split: prod.splits option.splits)

lemma Add_names_ok:
  assumes "Load (NewSnippetManager home) fs = Inr sm" and "names_ok home fs" and "name \<noteq> []"
  shows "names_ok home (snd (snd (snd (Add sm name inp fs))))"
proof (cases "Snippets sm")
  case None
  with assms(2) show ?thesis by (simp add: Add_files)
next
  case (Some t)
  have k: "[] \<notin> fst ` set t"
    using assms(1,2) Some by (simp add: names_ok_def no_empty_name_def entries_def)
  let ?t' = "AList.update name (Join (fst (read_lines (tokens inp))) [CHR 0x0A]) t"
  have "[] \<notin> fst ` set ?t'"
    using k assms(3) by (simp add: dom_update)
  then have "names_ok home (snd (Save (sm\<lparr>Snippets := Some ?t'\<rparr>) fs))"
    using Load_Filepath [OF assms(1)] assms(2) by (intro persist_names_ok) simp_all
  then show ?thesis
    using Some assms(2) by (simp add: Add_files)
qed

lemma Delete_names_ok:
  assumes "Load (NewSnippetManager home) fs = Inr sm" and "names_ok home fs"
  shows "names_ok home (snd (snd (Delete sm name fs)))"
proof (cases "Snippets sm")
  case None
  with assms(2) show ?thesis by (simp add: Delete_files)
next
  case (Some t)
  have k: "[] \<notin> fst ` set t"
    using assms(1,2) Some by (simp add: names_ok_def no_empty_name_def entries_def)
  have "[] \<notin> fst ` set (AList.delete name t)"
    using k dom_delete_subset [of name t] by auto
  then have "names_ok home (snd (Save (sm\<lparr>Snippets := Some (AList.delete name t)\<rparr>) fs))"
    using Load_Filepath [OF assms(1)] assms(2) by (intro persist_names_ok) simp_all
  then show ?thesis
    using Some assms(2) by (simp add: Delete_files)
qed

lemma main_names_ok:
  assumes "names_ok home fs" and "2 < length args \<longrightarrow> args ! 2 \<noteq> []"
  shows "names_ok home (files (main args home inp fs))"
proof (cases "Load (NewSnippetManager home) fs")
  case (Inl err)
  with assms(1) show ?thesis by (simp add: main_def)
next
  case (Inr sm)
  show ?thesis
    using assms Add_names_ok [OF Inr assms(1), of "args ! 2" inp]
      Delete_names_ok [OF Inr assms(1), of "args ! 2"]
    by (auto simp: main_def Inr split: prod.splits option.splits)
qed

text \<open>
  Claim C9, amended. From a file system whose snippets file, if it loads, holds no
  empty name (a missing file among them), after any sequence of runs of the program in
  which no name argument is the empty string, the table the program loads still holds
  no empty name.
\<close>

theorem names_stay_nonempty:
  assumes "names_ok home fs"
    and "\<forall>run \<in> set runs. 2 < length (fst run) \<longrightarrow> fst run ! 2 \<noteq> []"
  shows "names_ok home (run_all runs home fs)"
  using assms
proof (induction runs arbitrary: fs)
  case Nil
  then show ?case by simp
next
  case (Cons run runs)
  have "names_ok home (files (main (fst run) home (snd run) fs))"
    using Cons.prems by (intro main_names_ok) simp_all
  then show ?case using Cons by simp
qed

theorem names_stay_nonempty_witness:
  "names_ok ''/home/u'' (\<lambda>_. Missing)
   \<and> [''snippetmanager'', ''add'', ''greet''] ! 2 \<noteq> []
   \<and> [''snippetmanager'', ''delete'', ''other''] ! 2 \<noteq> []
   \<and> names_ok ''/home/u''
        (run_all [([''snippetmanager'', ''add'', ''greet''],
                   \<lparr>tokens = [''hi'', ''''], failed = False\<rparr>),
                  ([''snippetmanager'', ''delete'', ''other''],
                   \<lparr>tokens = [], failed = False\<rparr>)] ''/home/u'' (\<lambda>_. Missing))"
proof -
  have n: "names_ok ''/home/u'' (\<lambda>_. Missing)"
    by (simp add: names_ok_def Load_def ReadFile_def IsNotExist_def no_empty_name_def
          entries_def)
  have r: "\<forall>run \<in> set [([''snippetmanager'', ''add'', ''greet''],
                      \<lparr>tokens = [''hi'', ''''], failed = False\<rparr>),
                     ([''snippetmanager'', ''delete'', ''other''],
                      \<lparr>tokens = [], failed = False\<rparr>)].
         2 < length (fst run) \<longrightarrow> fst run ! 2 \<noteq> []"
    by simp
  show ?thesis
    using n names_stay_nonempty [OF n r] by simp
qed

end
